theory Spec2Isabelle
  imports Complex_Main "HOL-Library.Word"
begin

unbundle bit_operations_syntax

section \<open>Outcomes of a run\<close>

text \<open>
  \<^verbatim>\<open>stitch.c\<close> is one C file whose \<^verbatim>\<open>main\<close> resolves the bounding box, fetches and
  places tiles on a canvas, optionally normalizes elevations and writes the image.
  The model covers the projection functions, the resolver with its checks, the
  placement of a fetched tile and the elevation pass; option parsing, URL templating,
  the network fetch, the decoders and the writers are outside it.

  Each \<^verbatim>\<open>exit(EXIT_FAILURE)\<close> on these paths is a value \<open>Exit_failure\<close> of the model, tagged
  with the message that is printed before it.  Where the C standard gives an
  operation no defined result (a read or write outside a buffer, a shift by a count
  outside \<open>0..31\<close>, and in the compositor and the elevation pass the conversion of a
  double that is not finite or does not fit the integer type) the model stops with
  \<open>Undefined\<close>: nothing is proved about what the program does from there on.

  A finite \<^verbatim>\<open>double\<close> is a \<^typ>\<open>real\<close>.  In the compositor and the elevation pass the
  arithmetic of the source is read as exact arithmetic.  In the projection functions,
  whose truncated results decide the tile range, every operation on doubles rounds:
  the rounding and the library functions are those of a platform, a parameter of the
  model (section \<open>Projection math\<close>).  \<^verbatim>\<open>unsigned int\<close> values are \<^typ>\<open>32 word\<close> and bytes
  are \<^typ>\<open>8 word\<close>.  \<^verbatim>\<open>int\<close> values are \<^typ>\<open>int\<close>; the one \<^verbatim>\<open>int\<close> operation whose
  overflow is modelled is the left shift of the centered branch.
\<close>

datatype failure =
    Zoom_negative           \<comment> \<open>\<^verbatim>\<open>Zoom %u less than 0\<close>\<close>
  | No_output               \<comment> \<open>\<^verbatim>\<open>Didn't specify -o and standard output is a terminal\<close>\<close>
  | Width_height            \<comment> \<open>\<^verbatim>\<open>Width/height less than 0\<close>\<close>
  | Too_big                 \<comment> \<open>\<^verbatim>\<open>that's too big\<close>\<close>
  | Decode_failed           \<comment> \<open>\<^verbatim>\<open>read_png\<close> or \<^verbatim>\<open>read_jpeg\<close> returned 0\<close>
  | Tile_size               \<comment> \<open>\<^verbatim>\<open>Got %dx%d tile, not %d\<close>\<close>
  | Fetch_failed            \<comment> \<open>\<^verbatim>\<open>Can't retrieve %s: %s\<close>\<close>

datatype error = Exit_failure failure | Undefined

definition and_then :: "error + 'a \<Rightarrow> ('a \<Rightarrow> error + 'b) \<Rightarrow> error + 'b" where
  "and_then m f = (case m of Inl e \<Rightarrow> Inl e | Inr v \<Rightarrow> f v)"

text \<open>A counted \<^verbatim>\<open>for\<close> loop whose body may stop the run.\<close>

fun for_each :: "nat list \<Rightarrow> (nat \<Rightarrow> 's \<Rightarrow> error + 's) \<Rightarrow> 's \<Rightarrow> error + 's" where
  "for_each [] f s = Inr s"
| "for_each (k # ks) f s = (case f k s of Inl e \<Rightarrow> Inl e | Inr s' \<Rightarrow> for_each ks f s')"

section \<open>Bytes, buffers and conversions\<close>

type_synonym byte = "8 word"

text \<open>\<^verbatim>\<open>b[k]\<close> as an rvalue and as an lvalue; the index is the C integer.\<close>

definition rd :: "byte list \<Rightarrow> int \<Rightarrow> error + byte" where
  "rd b k = (if 0 \<le> k \<and> k < int (length b) then Inr (b ! nat k) else Inl Undefined)"

definition wr :: "byte list \<Rightarrow> int \<Rightarrow> byte \<Rightarrow> error + byte list" where
  "wr b k v = (if 0 \<le> k \<and> k < int (length b) then Inr (b[nat k := v]) else Inl Undefined)"

text \<open>Conversion of a double to an integer type discards the fraction (towards zero).\<close>

definition trunc :: "real \<Rightarrow> int" where
  "trunc v = (if 0 \<le> v then \<lfloor>v\<rfloor> else \<lceil>v\<rceil>)"

definition double_to_uchar :: "real \<Rightarrow> error + byte" where
  "double_to_uchar v = (if - 1 < v \<and> v < 256 then Inr (word_of_int (trunc v)) else Inl Undefined)"

definition uchar_to_double :: "byte \<Rightarrow> real" where
  "uchar_to_double c = real (unat c)"

section \<open>Canvas compositor\<close>

text \<open>\<^verbatim>\<open>struct image\<close>: a decoded tile.\<close>

record image =
  buf :: "byte list"
  depth :: int
  width :: int
  height :: int

text \<open>
  Lines 532--552, the branch \<^verbatim>\<open>i->depth == 4\<close>.  In the source the variables ending in
  \<^verbatim>\<open>s\<close> are read from the canvas and those ending in \<^verbatim>\<open>d\<close> from the tile.  The blue
  channel of the canvas is read at \<^verbatim>\<open>offset * 4 + 2\<close>, as the source has it.  When
  \<^verbatim>\<open>ar\<close> is zero the quotients are not finite and their conversion is undefined.
\<close>

definition blend :: "byte list \<Rightarrow> int \<Rightarrow> byte list \<Rightarrow> int \<Rightarrow> error + byte list" where
  "blend canvas offset ibuf ioffset =
     and_then (rd canvas (offset + 3)) (\<lambda>c3.
     and_then (rd canvas (offset + 0)) (\<lambda>c0.
     and_then (rd canvas (offset + 1)) (\<lambda>c1.
     and_then (rd canvas (offset * 4 + 2)) (\<lambda>c2.
     and_then (rd ibuf (ioffset + 3)) (\<lambda>i3.
     and_then (rd ibuf (ioffset + 0)) (\<lambda>i0.
     and_then (rd ibuf (ioffset + 1)) (\<lambda>i1.
     and_then (rd ibuf (ioffset + 2)) (\<lambda>i2.
       let as = uchar_to_double c3 / 255;
           rs = uchar_to_double c0 / 255 * as;
           gs = uchar_to_double c1 / 255 * as;
           bs = uchar_to_double c2 / 255 * as;
           ad = uchar_to_double i3 / 255;
           rd' = uchar_to_double i0 / 255 * ad;
           gd = uchar_to_double i1 / 255 * ad;
           bd = uchar_to_double i2 / 255 * ad;
           ar = as * (1 - ad) + ad;
           rr = rs * (1 - ad) + rd';
           gr = gs * (1 - ad) + gd;
           br = bs * (1 - ad) + bd
       in
         and_then (double_to_uchar (ar * 255)) (\<lambda>v3.
         and_then (wr canvas (offset + 3) v3) (\<lambda>canvas.
         if ar = 0 then Inl Undefined
         else
         and_then (double_to_uchar (rr / ar * 255)) (\<lambda>v0.
         and_then (wr canvas (offset + 0) v0) (\<lambda>canvas.
         and_then (double_to_uchar (gr / ar * 255)) (\<lambda>v1.
         and_then (wr canvas (offset + 1) v1) (\<lambda>canvas.
         and_then (double_to_uchar (br / ar * 255)) (\<lambda>v2.
         wr canvas (offset + 2) v2)))))))))))))))"

text \<open>Lines 553--557, the branch \<^verbatim>\<open>i->depth == 3\<close>.\<close>

definition copy_rgb :: "byte list \<Rightarrow> int \<Rightarrow> byte list \<Rightarrow> int \<Rightarrow> error + byte list" where
  "copy_rgb canvas offset ibuf ioffset =
     and_then (rd ibuf (ioffset + 0)) (\<lambda>i0.
     and_then (wr canvas (offset + 0) i0) (\<lambda>canvas.
     and_then (rd ibuf (ioffset + 1)) (\<lambda>i1.
     and_then (wr canvas (offset + 1) i1) (\<lambda>canvas.
     and_then (rd ibuf (ioffset + 2)) (\<lambda>i2.
     and_then (wr canvas (offset + 2) i2) (\<lambda>canvas.
     wr canvas (offset + 3) 255))))))"

text \<open>Lines 558--563, the final \<^verbatim>\<open>else\<close>: every depth other than 4 and 3.\<close>

definition copy_gray :: "byte list \<Rightarrow> int \<Rightarrow> byte list \<Rightarrow> int \<Rightarrow> error + byte list" where
  "copy_gray canvas offset ibuf ioffset =
     and_then (rd ibuf (ioffset + 0)) (\<lambda>i0.
     and_then (wr canvas (offset + 0) i0) (\<lambda>canvas.
     and_then (rd ibuf (ioffset + 0)) (\<lambda>i0.
     and_then (wr canvas (offset + 1) i0) (\<lambda>canvas.
     and_then (rd ibuf (ioffset + 0)) (\<lambda>i0.
     and_then (wr canvas (offset + 2) i0) (\<lambda>canvas.
     wr canvas (offset + 3) 255))))))"

text \<open>
  Lines 522--563, the body of the two pixel loops: \<open>cw\<close> and \<open>ch\<close> are the canvas
  \<^verbatim>\<open>width\<close> and \<^verbatim>\<open>height\<close> of \<^verbatim>\<open>main\<close>, \<open>i\<close> is the tile.
\<close>

definition place_pixel ::
  "int \<Rightarrow> int \<Rightarrow> int \<Rightarrow> int \<Rightarrow> image \<Rightarrow> int \<Rightarrow> int \<Rightarrow> byte list \<Rightarrow> error + byte list" where
  "place_pixel cw ch xoff yoff i y x canvas =
     (let xd = x + xoff; yd = y + yoff in
      if xd < 0 \<or> yd < 0 \<or> xd \<ge> cw \<or> yd \<ge> ch then Inr canvas
      else
        let offset = ((y + yoff) * cw + x + xoff) * 4;
            ioffset = (y * width i + x) * depth i
        in if depth i = 4 then blend canvas offset (buf i) ioffset
           else if depth i = 3 then copy_rgb canvas offset (buf i) ioffset
           else copy_gray canvas offset (buf i) ioffset)"

text \<open>Lines 520--565: \<^verbatim>\<open>for (y = 0; y < i->height; y++) for (x = 0; x < i->width; x++)\<close>.\<close>

definition place_tile ::
  "int \<Rightarrow> int \<Rightarrow> int \<Rightarrow> int \<Rightarrow> image \<Rightarrow> byte list \<Rightarrow> error + byte list" where
  "place_tile cw ch xoff yoff i canvas =
     for_each [0..<nat (height i)]
       (\<lambda>y. for_each [0..<nat (width i)]
          (\<lambda>x. place_pixel cw ch xoff yoff i (int y) (int x)))
       canvas"

text \<open>The four bytes of the canvas pixel in column \<open>X\<close> of row \<open>Y\<close>, for the statements below.\<close>

definition pixel_at :: "int \<Rightarrow> byte list \<Rightarrow> int \<Rightarrow> int \<Rightarrow> byte \<times> byte \<times> byte \<times> byte" where
  "pixel_at cw canvas X Y =
     (let off = nat ((Y * cw + X) * 4)
      in (canvas ! off, canvas ! (off + 1), canvas ! (off + 2), canvas ! (off + 3)))"

text \<open>
  Lines 484--568, the body of the loop over the tile sources of one tile, from the
  result of \<^verbatim>\<open>curl_easy_perform\<close> on.  The decoders wrap libpng and libjpeg and are
  parameters: given the fetched bytes a decoder ends the process itself (\<open>Inl\<close>: the
  error callback \<^verbatim>\<open>fail\<close> calls \<^verbatim>\<open>exit\<close>), returns 0 (\<open>Inr None\<close>: the build without
  that library) or returns an image.  \<open>fetched\<close> is \<open>None\<close> when curl reports an error.
\<close>

definition png_magic :: "byte list" where
  "png_magic = [0x89, 0x50, 0x4E, 0x47]"  \<comment> \<open>\<^verbatim>\<open>"\x89PNG"\<close>\<close>

definition jpeg_magic :: "byte list" where
  "jpeg_magic = [0xFF, 0xD8]"

type_synonym decoder = "byte list \<Rightarrow> error + image option"

text \<open>
  Lines 192--195 and 271--274: the decoders of a build without the library print a
  message and return 0.  \<open>decodes_to i\<close> stands for a decoder run that returns the
  image \<open>i\<close>.
\<close>

definition read_jpeg_unsupported :: decoder where
  "read_jpeg_unsupported s = Inr None"

definition read_png_unsupported :: decoder where
  "read_png_unsupported s = Inr None"

definition decodes_to :: "image \<Rightarrow> decoder" where
  "decodes_to i s = Inr (Some i)"

definition place_decoded ::
  "int \<Rightarrow> int \<Rightarrow> int \<Rightarrow> int \<Rightarrow> int \<Rightarrow> error + image option \<Rightarrow> byte list \<Rightarrow> error + byte list" where
  "place_decoded tilesize cw ch xoff yoff decoded canvas =
     and_then decoded (\<lambda>r.
       case r of
         None \<Rightarrow> Inl (Exit_failure Decode_failed)
       | Some i \<Rightarrow>
           if height i \<noteq> tilesize \<or> width i \<noteq> tilesize then Inl (Exit_failure Tile_size)
           else place_tile cw ch xoff yoff i canvas)"

definition place_source ::
  "decoder \<Rightarrow> decoder \<Rightarrow> int \<Rightarrow> int \<Rightarrow> int \<Rightarrow> int \<Rightarrow> int \<Rightarrow> byte list option \<Rightarrow> byte list
     \<Rightarrow> error + byte list" where
  "place_source read_png read_jpeg tilesize cw ch xoff yoff fetched canvas =
     (case fetched of
        None \<Rightarrow> Inl (Exit_failure Fetch_failed)
      | Some data \<Rightarrow>
          if 4 \<le> length data \<and> take 4 data = png_magic
          then place_decoded tilesize cw ch xoff yoff (read_png data) canvas
          else if 2 \<le> length data \<and> take 2 data = jpeg_magic
          then place_decoded tilesize cw ch xoff yoff (read_jpeg data) canvas
          else Inr canvas)"  \<comment> \<open>\<^verbatim>\<open>Don't recognize file format\<close>, then \<^verbatim>\<open>continue\<close>\<close>

text \<open>
  The three nested loops of lines 427--571 run that body once per tile and source, in
  order; \<open>place_sources\<close> is the run of the body over the sequence of placement
  offsets and fetch results that the loops produce.
\<close>

fun place_sources ::
  "decoder \<Rightarrow> decoder \<Rightarrow> int \<Rightarrow> int \<Rightarrow> int \<Rightarrow> (int \<times> int \<times> byte list option) list \<Rightarrow> byte list
     \<Rightarrow> error + byte list" where
  "place_sources read_png read_jpeg tilesize cw ch [] canvas = Inr canvas"
| "place_sources read_png read_jpeg tilesize cw ch ((xoff, yoff, fetched) # rest) canvas =
     and_then (place_source read_png read_jpeg tilesize cw ch xoff yoff fetched canvas)
       (place_sources read_png read_jpeg tilesize cw ch rest)"

section \<open>Elevation normalizer\<close>

text \<open>Lines 581--587: the accumulator of the first pass.\<close>

record elevation_stats =
  min_elevation :: "32 word"
  max_elevation :: "32 word"
  avg_elevation :: real
  counter :: "32 word"

definition initial_stats :: elevation_stats where
  "initial_stats = \<lparr>min_elevation = 0xFFFFFF, max_elevation = 0, avg_elevation = 0, counter = 0\<rparr>"

text \<open>\<^verbatim>\<open>(buf[offset] << 16) + (buf[offset+1] << 8) + buf[offset+2]\<close>, lines 591 and 621.\<close>

definition pack :: "byte \<Rightarrow> byte \<Rightarrow> byte \<Rightarrow> 32 word" where
  "pack r g b = push_bit 16 (ucast r) + push_bit 8 (ucast g) + ucast b"

definition pixel_elevation :: "byte list \<Rightarrow> int \<Rightarrow> error + 32 word" where
  "pixel_elevation canvas offset =
     and_then (rd canvas offset) (\<lambda>r.
     and_then (rd canvas (offset + 1)) (\<lambda>g.
     and_then (rd canvas (offset + 2)) (\<lambda>b.
     Inr (pack r g b))))"

text \<open>
  Lines 591--600, the body of the first pass; the state is \<^verbatim>\<open>offset\<close> and the statistics.
  The running average is only printed.
\<close>

definition scan_pixel :: "byte list \<Rightarrow> int \<times> elevation_stats \<Rightarrow> error + int \<times> elevation_stats" where
  "scan_pixel canvas s =
     (case s of (offset, st) \<Rightarrow>
       and_then (pixel_elevation canvas offset) (\<lambda>pe.
         let mn = (if min_elevation st > pe then pe else min_elevation st);
             mx = (if max_elevation st < pe then pe else max_elevation st);
             c = counter st + 1;
             avg = avg_elevation st + (real (unat pe) - avg_elevation st) / real (unat c)
         in Inr (offset + 4,
                 \<lparr>min_elevation = mn, max_elevation = mx, avg_elevation = avg, counter = c\<rparr>)))"

text \<open>\<^verbatim>\<open>round\<close> of the C library: to the nearest integer, halfway cases away from zero.\<close>

definition c_round :: "real \<Rightarrow> real" where
  "c_round v = (if 0 \<le> v then of_int \<lfloor>v + 1 / 2\<rfloor> else of_int \<lceil>v - 1 / 2\<rceil>)"

text \<open>Lines 611--615.\<close>

definition elevation_ratio :: "elevation_stats \<Rightarrow> real" where
  "elevation_ratio st =
     (if max_elevation st > min_elevation st
      then 255 / real (unat (max_elevation st - min_elevation st))
      else 1)"

text \<open>
  Lines 621--623, the body of the second pass; the state is \<^verbatim>\<open>offset\<close> and the canvas.
  The chained assignment stores the converted byte in the three channels.
\<close>

definition rewrite_pixel :: "32 word \<Rightarrow> real \<Rightarrow> int \<times> byte list \<Rightarrow> error + int \<times> byte list" where
  "rewrite_pixel mn ratio s =
     (case s of (offset, canvas) \<Rightarrow>
       and_then (pixel_elevation canvas offset) (\<lambda>pe.
       and_then (double_to_uchar (c_round (real (unat (pe - mn)) * ratio))) (\<lambda>v.
       and_then (wr canvas (offset + 2) v) (\<lambda>canvas.
       and_then (wr canvas (offset + 1) v) (\<lambda>canvas.
       and_then (wr canvas offset v) (\<lambda>canvas.
       Inr (offset + 4, canvas)))))))"

text \<open>Lines 589--602 and 619--625: both passes, over \<open>ch\<close> rows of \<open>cw\<close> pixels.\<close>

definition scan_canvas :: "int \<Rightarrow> int \<Rightarrow> byte list \<Rightarrow> error + int \<times> elevation_stats" where
  "scan_canvas cw ch canvas =
     for_each [0..<nat ch] (\<lambda>y. for_each [0..<nat cw] (\<lambda>x. scan_pixel canvas)) (0, initial_stats)"

definition rewrite_canvas :: "int \<Rightarrow> int \<Rightarrow> 32 word \<Rightarrow> real \<Rightarrow> byte list \<Rightarrow> error + int \<times> byte list" where
  "rewrite_canvas cw ch mn ratio canvas =
     for_each [0..<nat ch] (\<lambda>y. for_each [0..<nat cw] (\<lambda>x. rewrite_pixel mn ratio)) (0, canvas)"

text \<open>Lines 578--626: \<^verbatim>\<open>if (elevation) { ... }\<close>.\<close>

definition normalize_elevation :: "bool \<Rightarrow> int \<Rightarrow> int \<Rightarrow> byte list \<Rightarrow> error + byte list" where
  "normalize_elevation elevation cw ch canvas =
     (if elevation then
        and_then (scan_canvas cw ch canvas) (\<lambda>(offset, st).
        and_then (rewrite_canvas cw ch (min_elevation st) (elevation_ratio st) canvas)
          (\<lambda>(offset, canvas). Inr canvas))
      else Inr canvas)"

text \<open>The packed value of pixel \<open>k\<close> of a canvas, for the statements below.\<close>

definition packed :: "byte list \<Rightarrow> nat \<Rightarrow> 32 word" where
  "packed canvas k = pack (canvas ! (4 * k)) (canvas ! (4 * k + 1)) (canvas ! (4 * k + 2))"

section \<open>Projection math\<close>

text \<open>
  The projection functions compute in doubles and store truncated results, so what they
  return depends on how each operation rounds.  A platform gives the rounding of an
  exact result to a double (\<open>rnd\<close>), the functions of \<^verbatim>\<open>math.h\<close> that the source calls,
  and the value that a conversion to \<^verbatim>\<open>unsigned int\<close> produces when the double is not
  finite or its integral part does not fit.  For that conversion the model follows
  Annex F of the C standard, which platforms with IEC 60559 arithmetic implement: the
  value is unspecified and the run goes on.  A finite double is a \<^typ>\<open>real\<close>; \<open>None\<close>
  stands for a double that is not finite.
\<close>

record platform =
  rnd :: "real \<Rightarrow> real"
  c_tan :: "real \<Rightarrow> real"
  c_cos :: "real \<Rightarrow> real"
  c_log :: "real \<Rightarrow> real"
  c_atan :: "real \<Rightarrow> real"
  c_sinh :: "real \<Rightarrow> real"
  invalid_uint :: "real option \<Rightarrow> 32 word"

text \<open>The operators \<^verbatim>\<open>+\<close>, \<^verbatim>\<open>-\<close>, \<^verbatim>\<open>*\<close> and \<^verbatim>\<open>/\<close> on doubles.\<close>

definition fadd :: "platform \<Rightarrow> real \<Rightarrow> real \<Rightarrow> real" where
  "fadd P a b = rnd P (a + b)"

definition fsub :: "platform \<Rightarrow> real \<Rightarrow> real \<Rightarrow> real" where
  "fsub P a b = rnd P (a - b)"

definition fmul :: "platform \<Rightarrow> real \<Rightarrow> real \<Rightarrow> real" where
  "fmul P a b = rnd P (a * b)"

definition fdiv :: "platform \<Rightarrow> real \<Rightarrow> real \<Rightarrow> real" where
  "fdiv P a b = rnd P (a / b)"

text \<open>
  \<^verbatim>\<open>M_PI\<close> of \<^verbatim>\<open>math.h\<close> is \<^verbatim>\<open>3.14159265358979323846\<close>; as a double it is
  \<open>884279719003555 / 2 ^ 48\<close>.
\<close>

definition M_PI :: real where
  "M_PI = 884279719003555 / 281474976710656"

text \<open>
  \<open>close_to u e a\<close>: the double \<open>a\<close> stands for the exact value \<open>e\<close> with relative error at
  most \<open>u\<close>; below the smallest normal double \<open>2 ^ - 1022\<close> the error is at most
  \<open>u * 2 ^ - 1022\<close>, and nothing is asked where \<open>e\<close> is beyond the range of doubles.  A
  platform is accurate to \<open>u\<close> when its rounding and its library functions are.
  Round-to-nearest arithmetic is accurate to \<open>2 ^ - 53\<close>; library functions whose error
  is at most four units in the last place are accurate to \<open>2 ^ - 50\<close>.
\<close>

definition close_to :: "real \<Rightarrow> real \<Rightarrow> real \<Rightarrow> bool" where
  "close_to u e a \<longleftrightarrow> (\<bar>e\<bar> \<le> 2 ^ 1023 \<longrightarrow> \<bar>a - e\<bar> \<le> u * max \<bar>e\<bar> (1 / 2 ^ 1022))"

definition accurate :: "real \<Rightarrow> platform \<Rightarrow> bool" where
  "accurate u P \<longleftrightarrow>
     (\<forall>v. close_to u v (rnd P v))
   \<and> (\<forall>v. close_to u (tan v) (c_tan P v))
   \<and> (\<forall>v. close_to u (cos v) (c_cos P v))
   \<and> (\<forall>v. 0 < v \<longrightarrow> close_to u (ln v) (c_log P v))
   \<and> (\<forall>v. close_to u (arctan v) (c_atan P v))
   \<and> (\<forall>v. close_to u (sinh v) (c_sinh P v))"

text \<open>The platform that computes exactly; an invalid conversion gives 0 on it.\<close>

definition exact :: platform where
  "exact = \<lparr>rnd = (\<lambda>v. v), c_tan = tan, c_cos = cos, c_log = ln, c_atan = arctan,
            c_sinh = sinh, invalid_uint = (\<lambda>d. 0)\<rparr>"


text \<open>
  \<^verbatim>\<open>1LL << zoom\<close>, stored in an \<^verbatim>\<open>unsigned long long\<close>: defined for a count of 0 to 62.
\<close>

definition shl_1LL :: "int \<Rightarrow> error + int" where
  "shl_1LL zoom = (if 0 \<le> zoom \<and> zoom < 63 then Inr (2 ^ nat zoom) else Inl Undefined)"

text \<open>
  The conversion of a double to \<^verbatim>\<open>unsigned int\<close>: the fraction is discarded; a double
  that is not finite or whose integral part does not fit gives the value the platform
  chooses.
\<close>

definition double_to_uint :: "platform \<Rightarrow> real option \<Rightarrow> 32 word" where
  "double_to_uint P d =
     (case d of
        Some v \<Rightarrow> if - 1 < v \<and> v < 2 ^ 32 then word_of_int (trunc v) else invalid_uint P d
      | None \<Rightarrow> invalid_uint P d)"

text \<open>
  Lines 105--111.  \<^verbatim>\<open>lat * M_PI / 180\<close> is \<^verbatim>\<open>(lat * M_PI) / 180\<close> and
  \<^verbatim>\<open>n * (...) / 2\<close> is \<^verbatim>\<open>(n * (...)) / 2\<close>; \<open>n\<close> is a power of two and converts to a double
  exactly.  Both results are stored through \<^verbatim>\<open>unsigned int *\<close>, so both products are
  converted.  Where the cosine is zero or the argument of \<^verbatim>\<open>log\<close> is not positive the
  double that is converted is infinite or not a number.
\<close>

definition latlon2tile :: "platform \<Rightarrow> real \<Rightarrow> real \<Rightarrow> int \<Rightarrow> error + 32 word \<times> 32 word" where
  "latlon2tile P lat lon zoom =
     (let lat_rad = fdiv P (fmul P lat M_PI) 180 in
      and_then (shl_1LL zoom) (\<lambda>n.
      let x = double_to_uint P
                (Some (fmul P (real_of_int n) (fdiv P (fadd P lon 180) 360)));
          c = c_cos P lat_rad;
          s = fadd P (c_tan P lat_rad) (fdiv P 1 c);
          y = double_to_uint P
                (if c = 0 \<or> s \<le> 0 then None
                 else Some (fdiv P (fmul P (real_of_int n)
                                      (fsub P 1 (fdiv P (c_log P s) M_PI))) 2))
      in Inr (x, y)))"

text \<open>
  Lines 114--119; the result is \<open>(lat, lon)\<close>.  The \<^verbatim>\<open>unsigned int\<close> arguments convert to
  doubles exactly.
\<close>

definition tile2latlon :: "platform \<Rightarrow> 32 word \<Rightarrow> 32 word \<Rightarrow> int \<Rightarrow> error + real \<times> real" where
  "tile2latlon P x y zoom =
     and_then (shl_1LL zoom) (\<lambda>n.
       let lon = fsub P (fdiv P (fmul P 360 (real (unat x))) (real_of_int n)) 180;
           lat_rad = c_atan P (c_sinh P (fmul P M_PI
                       (fsub P 1 (fdiv P (fmul P 2 (real (unat y))) (real_of_int n)))));
           lat = fdiv P (fmul P lat_rad 180) M_PI
       in Inr (lat, lon))"

section \<open>Bounding-box resolver\<close>

text \<open>
  What \<^verbatim>\<open>main\<close> has read when option parsing is over (lines 282--337):
  \<open>arg_minlat\<close>, \<open>arg_minlon\<close>, \<open>arg_maxlat\<close> and \<open>arg_maxlon\<close> are \<^verbatim>\<open>atof\<close> of the first
  four positional arguments, \<open>arg_width\<close> and \<open>arg_height\<close> are \<^verbatim>\<open>atoi\<close> of the third and
  fourth (read again at lines 368--369), \<open>arg_zoom\<close> is \<^verbatim>\<open>atoi\<close> of the fifth.
  \<open>no_outfile\<close> is \<^verbatim>\<open>outfile == NULL\<close> and \<open>stdout_tty\<close> is \<^verbatim>\<open>isatty(1)\<close>.
\<close>

record args =
  opt_elevation :: bool
  opt_centered :: bool
  opt_tilesize :: int
  no_outfile :: bool
  stdout_tty :: bool
  arg_minlat :: real
  arg_minlon :: real
  arg_maxlat :: real
  arg_maxlon :: real
  arg_width :: int
  arg_height :: int
  arg_zoom :: int

text \<open>\<^verbatim>\<open>minlat, minlon, maxlat, maxlon\<close>.\<close>

record box =
  minlat :: real
  minlon :: real
  maxlat :: real
  maxlon :: real

text \<open>Lines 345--355: the two swaps.\<close>

definition normalize_box :: "box \<Rightarrow> box" where
  "normalize_box b =
     (let b = (if minlat b > maxlat b then b\<lparr>minlat := maxlat b, maxlat := minlat b\<rparr> else b);
          b = (if minlon b > maxlon b then b\<lparr>minlon := maxlon b, maxlon := minlon b\<rparr> else b)
      in b)"

text \<open>
  \<^verbatim>\<open>a << k\<close> on \<^verbatim>\<open>int\<close>: defined for a count of 0 to 31 and a non-negative \<open>a\<close> whose
  shifted value fits.  \<^verbatim>\<open>a >> k\<close> on \<^verbatim>\<open>unsigned int\<close>: defined for a count of 0 to 31.
\<close>

definition shl_int :: "int \<Rightarrow> int \<Rightarrow> error + int" where
  "shl_int a k =
     (if 0 \<le> k \<and> k < 32 \<and> 0 \<le> a \<and> a * 2 ^ nat k < 2 ^ 31 then Inr (a * 2 ^ nat k)
      else Inl Undefined)"

definition shr_uint :: "32 word \<Rightarrow> int \<Rightarrow> error + 32 word" where
  "shr_uint a k = (if 0 \<le> k \<and> k < 32 then Inr (drop_bit (nat k) a) else Inl Undefined)"

text \<open>
  The corners \<^verbatim>\<open>x1, y1, x2, y2\<close> on the zoom-32 grid together with the box, as they
  stand after line 386.
\<close>

record corners =
  bbox :: box
  x1 :: "32 word"
  y1 :: "32 word"
  x2 :: "32 word"
  y2 :: "32 word"

text \<open>
  Lines 365--382, the branch \<^verbatim>\<open>if (centered)\<close>.  \<open>b\<close> is the box after the swaps; the
  width and height are read again from the arguments.  The shifted width is not
  negative, so the C division by 2 is \<open>div\<close>.
\<close>

definition resolve_centered :: "platform \<Rightarrow> box \<Rightarrow> int \<Rightarrow> int \<Rightarrow> int \<Rightarrow> error + corners" where
  "resolve_centered P b w h zoom =
     and_then (latlon2tile P (minlat b) (minlon b) 32) (\<lambda>(cx1, cy1).
     and_then (latlon2tile P (minlat b) (minlon b) 32) (\<lambda>(cx2, cy2).
     if w \<le> 0 \<or> h \<le> 0 then Inl (Exit_failure Width_height)
     else
     and_then (shl_int w (32 - (zoom + 8))) (\<lambda>sw.
     let nx1 = cx1 - word_of_int (sw div 2) in
     and_then (shl_int h (32 - (zoom + 8))) (\<lambda>sh.
     let ny1 = cy1 - word_of_int (sh div 2) in
     and_then (shl_int w (32 - (zoom + 8))) (\<lambda>sw.
     let nx2 = cx2 + word_of_int (sw div 2) in
     and_then (shl_int h (32 - (zoom + 8))) (\<lambda>sh.
     let ny2 = cy2 + word_of_int (sh div 2) in
     and_then (tile2latlon P nx1 ny1 32) (\<lambda>(lat1, lon1).
     and_then (tile2latlon P nx2 ny2 32) (\<lambda>(lat2, lon2).
     Inr \<lparr>bbox = \<lparr>minlat = lat2, minlon = lon1, maxlat = lat1, maxlon = lon2\<rparr>,
          x1 = nx1, y1 = ny1, x2 = nx2, y2 = ny2\<rparr>))))))))"

text \<open>Lines 384--385, the branch \<^verbatim>\<open>else\<close> (corner mode).\<close>

definition resolve_corners :: "platform \<Rightarrow> box \<Rightarrow> error + corners" where
  "resolve_corners P b =
     and_then (latlon2tile P (maxlat b) (minlon b) 32) (\<lambda>(cx1, cy1).
     and_then (latlon2tile P (minlat b) (maxlon b) 32) (\<lambda>(cx2, cy2).
     Inr \<lparr>bbox = b, x1 = cx1, y1 = cy1, x2 = cx2, y2 = cy2\<rparr>))"

text \<open>
  Everything \<^verbatim>\<open>main\<close> knows at line 412: the box, the corners, the tile range, the
  sub-tile offsets and the raster size.
\<close>

record plan =
  geo :: corners
  tx1 :: "32 word"
  ty1 :: "32 word"
  tx2 :: "32 word"
  ty2 :: "32 word"
  xa :: "32 word"
  ya :: "32 word"
  raster_width :: int
  raster_height :: int

text \<open>
  Lines 388--391: the tile range \<^verbatim>\<open>tx1, ty1, tx2, ty2\<close> at the requested zoom.  \<^verbatim>\<open>ty1\<close> comes
  from \<^verbatim>\<open>y1\<close> and \<^verbatim>\<open>ty2\<close> from \<^verbatim>\<open>y2\<close>.
\<close>

definition tile_indices :: "int \<Rightarrow> corners \<Rightarrow> error + 32 word \<times> 32 word \<times> 32 word \<times> 32 word" where
  "tile_indices zoom c =
     and_then (shr_uint (x1 c) (32 - zoom)) (\<lambda>t_x1.
     and_then (shr_uint (y1 c) (32 - zoom)) (\<lambda>t_y1.
     and_then (shr_uint (x2 c) (32 - zoom)) (\<lambda>t_x2.
     and_then (shr_uint (y2 c) (32 - zoom)) (\<lambda>t_y2.
     Inr (t_x1, t_y1, t_x2, t_y2)))))"

text \<open>
  Lines 388--407.  The products with \<^verbatim>\<open>tilesize\<close> and the divisions by 256 are unsigned;
  the raster size is the unsigned value read as an \<^verbatim>\<open>int\<close>.  The projected bounds and
  the pixel sizes (lines 393--398 and 410--412) are doubles that are printed and handed
  to the writers; they decide nothing in \<^verbatim>\<open>main\<close> and are left out.
\<close>

definition tile_range :: "int \<Rightarrow> int \<Rightarrow> corners \<Rightarrow> error + plan" where
  "tile_range zoom tilesize c =
     and_then (tile_indices zoom c) (\<lambda>(t_x1, t_y1, t_x2, t_y2).
     and_then (shr_uint (x1 c) (32 - (zoom + 8))) (\<lambda>px1.
     and_then (shr_uint (y1 c) (32 - (zoom + 8))) (\<lambda>py1.
     and_then (shr_uint (x2 c) (32 - (zoom + 8))) (\<lambda>px2.
     and_then (shr_uint (y2 c) (32 - (zoom + 8))) (\<lambda>py2.
     Inr \<lparr>geo = c, tx1 = t_x1, ty1 = t_y1, tx2 = t_x2, ty2 = t_y2,
          xa = (px1 AND 0xFF) * word_of_int tilesize div 256,
          ya = (py1 AND 0xFF) * word_of_int tilesize div 256,
          raster_width = sint ((px2 - px1) * word_of_int tilesize div 256),
          raster_height = sint ((py2 - py1) * word_of_int tilesize div 256)\<rparr>)))))"

text \<open>Lines 333--412: from the arguments to the raster size.\<close>

definition resolve :: "platform \<Rightarrow> args \<Rightarrow> error + plan" where
  "resolve P a =
     (if arg_zoom a < 0 then Inl (Exit_failure Zoom_negative)
      else
        let b = normalize_box \<lparr>minlat = arg_minlat a, minlon = arg_minlon a,
                               maxlat = arg_maxlat a, maxlon = arg_maxlon a\<rparr>
        in if no_outfile a \<and> stdout_tty a then Inl (Exit_failure No_output)
           else
             and_then (if opt_centered a
                       then resolve_centered P b (arg_width a) (arg_height a) (arg_zoom a)
                       else resolve_corners P b)
               (tile_range (arg_zoom a) (opt_tilesize a)))"

text \<open>Lines 414--418: the size guard.\<close>

definition check_dim :: "plan \<Rightarrow> error + plan" where
  "check_dim p =
     (let dim = raster_width p * raster_height p
      in if dim > 10000 * 10000 then Inl (Exit_failure Too_big) else Inr p)"

text \<open>
  \<^verbatim>\<open>main\<close>: the resolver and the size guard, then the rest of the function (the
  allocation of the canvas, the tile loops, the elevation pass and the writers, lines
  420--788), which runs on the plan.
\<close>

definition main_setup :: "platform \<Rightarrow> args \<Rightarrow> error + plan" where
  "main_setup P a = and_then (resolve P a) check_dim"

definition main :: "platform \<Rightarrow> args \<Rightarrow> (plan \<Rightarrow> error + 'r) \<Rightarrow> error + 'r" where
  "main P a rest = and_then (main_setup P a) rest"

section \<open>Loops and buffer accesses\<close>

text \<open>
  A loop whose body keeps an invariant indexed by the number of iterations done ends
  without error in a state that satisfies the invariant at the length of the loop;
  for two nested counted loops the index is the row-major count.
\<close>

lemma for_each_invariant:
  assumes "P 0 s0"
    and "\<And>j s. j < length ks \<Longrightarrow> P j s \<Longrightarrow> \<exists>s'. f (ks ! j) s = Inr s' \<and> P (Suc j) s'"
  shows "\<exists>s'. for_each ks f s0 = Inr s' \<and> P (length ks) s'"
  using assms
proof (induction ks arbitrary: s0 P)
  case Nil
  then show ?case by simp
next
  case (Cons k ks)
  from Cons.prems(2)[of 0 s0] Cons.prems(1)
  obtain s1 where s1: "f k s0 = Inr s1" "P (Suc 0) s1" by auto
  have "\<exists>s'. for_each ks f s1 = Inr s' \<and> (\<lambda>j. P (Suc j)) (length ks) s'"
  proof (rule Cons.IH)
    show "P (Suc 0) s1" by (rule s1(2))
  next
    fix j s assume "j < length ks" "P (Suc j) s"
    with Cons.prems(2)[of "Suc j" s]
    show "\<exists>s'. f (ks ! j) s = Inr s' \<and> P (Suc (Suc j)) s'" by simp
  qed
  with s1 show ?case by simp
qed

lemma for_each_grid:
  assumes "Inv 0 s0"
    and step: "\<And>y x s. y < h \<Longrightarrow> x < w \<Longrightarrow> Inv (y * w + x) s
            \<Longrightarrow> \<exists>s'. g y x s = Inr s' \<and> Inv (Suc (y * w + x)) s'"
  shows "\<exists>s'. for_each [0..<h] (\<lambda>y. for_each [0..<w] (g y)) s0 = Inr s' \<and> Inv (h * w) s'"
proof -
  have "\<exists>s'. for_each [0..<h] (\<lambda>y. for_each [0..<w] (g y)) s0 = Inr s'
          \<and> (\<lambda>y. Inv (y * w)) (length [0..<h]) s'"
  proof (rule for_each_invariant)
    show "Inv (0 * w) s0" using assms(1) by simp
  next
    fix y s assume y: "y < length [0..<h]" and inv: "Inv (y * w) s"
    have "\<exists>s'. for_each [0..<w] (g y) s = Inr s' \<and> (\<lambda>x. Inv (y * w + x)) (length [0..<w]) s'"
    proof (rule for_each_invariant)
      show "Inv (y * w + 0) s" using inv by simp
    next
      fix x s assume "x < length [0..<w]" "Inv (y * w + x) s"
      with step[of y x s] y show "\<exists>s'. g y ([0..<w] ! x) s = Inr s' \<and> Inv (y * w + Suc x) s'"
        by simp
    qed
    then show "\<exists>s'. for_each [0..<w] (g ([0..<h] ! y)) s = Inr s' \<and> Inv (Suc y * w) s'"
      using y by (simp add: add.commute)
  qed
  then show ?thesis by simp
qed

lemma rd_nat: "k < length b \<Longrightarrow> rd b (int k) = Inr (b ! k)"
  by (simp add: rd_def)

lemma wr_nat: "k < length b \<Longrightarrow> wr b (int k) v = Inr (b[k := v])"
  by (simp add: wr_def)

section \<open>Clipping\<close>

lemma for_each_skip:
  "(\<And>k. k \<in> set ks \<Longrightarrow> f k s = Inr s) \<Longrightarrow> for_each ks f s = Inr s"
  by (induction ks) simp_all

text \<open>
  Claim C5.  A source pixel whose destination \<open>(x + xoff, y + yoff)\<close> lies outside
  \<open>[0, cw) \<times> [0, ch)\<close> is skipped: the step returns the canvas as it was and raises no
  error.  Hence a tile all of whose pixels land outside the canvas leaves every byte
  of the canvas unchanged, whatever its depth and contents.
\<close>

theorem clipping_leaves_canvas:
  "(x + xoff < 0 \<or> y + yoff < 0 \<or> cw \<le> x + xoff \<or> ch \<le> y + yoff
      \<longrightarrow> place_pixel cw ch xoff yoff i y x canvas = Inr canvas)
   \<and> ((\<forall>y < nat (height i). \<forall>x < nat (width i).
          int x + xoff < 0 \<or> int y + yoff < 0 \<or> cw \<le> int x + xoff \<or> ch \<le> int y + yoff)
      \<longrightarrow> place_tile cw ch xoff yoff i canvas = Inr canvas)"
proof (intro conjI impI)
  assume "x + xoff < 0 \<or> y + yoff < 0 \<or> cw \<le> x + xoff \<or> ch \<le> y + yoff"
  then show "place_pixel cw ch xoff yoff i y x canvas = Inr canvas"
    by (auto simp: place_pixel_def Let_def)
next
  assume out: "\<forall>y < nat (height i). \<forall>x < nat (width i).
          int x + xoff < 0 \<or> int y + yoff < 0 \<or> cw \<le> int x + xoff \<or> ch \<le> int y + yoff"
  have px: "place_pixel cw ch xoff yoff i (int y) (int x) canvas = Inr canvas"
    if "y < nat (height i)" "x < nat (width i)" for x y
    using out that by (auto simp: place_pixel_def Let_def)
  have row: "for_each [0..<nat (width i)]
      (\<lambda>x. place_pixel cw ch xoff yoff i (int y) (int x)) canvas = Inr canvas"
    if "y < nat (height i)" for y
    by (rule for_each_skip) (simp add: px that)
  show "place_tile cw ch xoff yoff i canvas = Inr canvas"
    unfolding place_tile_def by (rule for_each_skip) (simp add: row)
qed

theorem clipping_leaves_canvas_witness:
  "place_pixel 2 2 5 0
       \<lparr>buf = [1, 2, 3, 4, 5, 6, 7, 8, 9, 10, 11, 12], depth = 3, width = 2, height = 2\<rparr>
       0 0 (replicate 16 0) = Inr (replicate 16 0)
   \<and> place_tile 2 2 5 0
       \<lparr>buf = [1, 2, 3, 4, 5, 6, 7, 8, 9, 10, 11, 12], depth = 3, width = 2, height = 2\<rparr>
       (replicate 16 0) = Inr (replicate 16 0)"
  using clipping_leaves_canvas [of 0 5 0 0 2 2
      "\<lparr>buf = [1, 2, 3, 4, 5, 6, 7, 8, 9, 10, 11, 12], depth = 3, width = 2, height = 2\<rparr>"
      "replicate 16 0"]
  by simp

section \<open>Alpha compositing\<close>

text \<open>
  Claim C1, evaluated where it fails.  The canvas is 5 by 1; its pixel 1 holds
  \<open>(0, 255, 30, 255)\<close> and its pixel 4 is still zero.  A 1 by 1 RGBA tile whose only
  pixel is fully transparent is placed on pixel 1.  Red, green and alpha of the canvas
  pixel are read at \<open>offset + 0\<close>, \<open>offset + 1\<close> and \<open>offset + 3\<close> with \<open>offset = 4\<close>,
  but blue is read at \<open>offset * 4 + 2 = 18\<close>, the blue byte of pixel 4, which is 0:
  the blue channel of pixel 1 goes from 30 to 0, so the destination pixel is changed.
  Every double of this run is 0, 1 or 255, so the exact arithmetic of the model is
  the arithmetic of the doubles here.
\<close>

theorem transparent_blend_changes_blue:
  "place_tile 5 1 1 0 \<lparr>buf = [0, 0, 0, 0], depth = 4, width = 1, height = 1\<rparr>
     [0, 0, 0, 0,  0, 255, 30, 255,  0, 0, 0, 0,  0, 0, 0, 0,  0, 0, 0, 0]
   = Inr [0, 0, 0, 0,  0, 255, 0, 255,  0, 0, 0, 0,  0, 0, 0, 0,  0, 0, 0, 0]"
  by (simp add: place_tile_def place_pixel_def blend_def and_then_def rd_def wr_def
      double_to_uchar_def uchar_to_double_def trunc_def Let_def)

section \<open>Other channel depths\<close>

lemma grid_inj:
  fixes X Y X' Y' cw :: int
  assumes "0 \<le> X" "X < cw" "0 \<le> X'" "X' < cw" "Y * cw + X = Y' * cw + X'"
  shows "X = X' \<and> Y = Y'"
proof -
  have cw: "cw \<noteq> 0" using assms by linarith
  have "(Y * cw + X) mod cw = X" using assms(1,2) by simp
  moreover have "(Y' * cw + X') mod cw = X'" using assms(3,4) by simp
  ultimately have x: "X = X'" using assms(5) by simp
  with assms(5) have "Y * cw = Y' * cw" by simp
  with cw have "Y = Y'" by simp
  with x show ?thesis by simp
qed

lemma grid_bound:
  fixes X Y cw ch :: int
  assumes "0 \<le> X" "X < cw" "0 \<le> Y" "Y < ch"
  shows "0 \<le> Y * cw + X \<and> Y * cw + X < ch * cw"
proof -
  have "0 \<le> Y * cw" using assms by simp
  moreover have "(Y + 1) * cw \<le> ch * cw" using assms by (intro mult_right_mono) linarith+
  ultimately show ?thesis using assms by (simp add: algebra_simps)
qed

lemma copy_gray_ok:
  assumes "off + 3 < length c" "j < length ib"
  shows "copy_gray c (int off) ib (int j)
     = Inr (c[off := ib ! j, off + 1 := ib ! j, off + 2 := ib ! j, off + 3 := 255])"
proof -
  define v where "v = ib ! j"
  have r: "rd ib (int j + 0) = Inr v" using rd_nat[OF assms(2)] by (simp add: v_def)
  have w0: "wr c (int off + 0) v = Inr (c[off := v])"
    using wr_nat[of off c v] assms(1) by simp
  have w1: "wr (c[off := v]) (int off + 1) v = Inr (c[off := v, off + 1 := v])"
    using wr_nat[of "off + 1" "c[off := v]" v] assms(1) by (simp add: add.commute)
  have w2: "wr (c[off := v, off + 1 := v]) (int off + 2) v = Inr (c[off := v, off + 1 := v, off + 2 := v])"
    using wr_nat[of "off + 2" "c[off := v, off + 1 := v]" v] assms(1) by (simp add: add.commute)
  have w3: "wr (c[off := v, off + 1 := v, off + 2 := v]) (int off + 3) 255
      = Inr (c[off := v, off + 1 := v, off + 2 := v, off + 3 := 255])"
    using wr_nat[of "off + 3" "c[off := v, off + 1 := v, off + 2 := v]" 255] assms(1)
    by (simp add: add.commute)
  show ?thesis
    unfolding v_def[symmetric]
    by (simp only: copy_gray_def r w0 w1 w2 w3 and_then_def sum.case)
qed

lemma pixel_at_update_same:
  assumes "off + 3 < length c" "off = nat ((Y * cw + X) * 4)"
  shows "pixel_at cw (c[off := v, off + 1 := v, off + 2 := v, off + 3 := a]) X Y = (v, v, v, a)"
  using assms(1) unfolding pixel_at_def assms(2)[symmetric] Let_def by simp

lemma pixel_at_update_other:
  fixes X Y X' Y' cw :: int
  assumes "0 \<le> X" "X < cw" "0 \<le> Y" "0 \<le> X'" "X' < cw" "0 \<le> Y'"
    and ne: "X \<noteq> X' \<or> Y \<noteq> Y'"
    and off: "off = nat ((Y' * cw + X') * 4)"
  shows "pixel_at cw (c[off := v0, off + 1 := v1, off + 2 := v2, off + 3 := v3]) X Y = pixel_at cw c X Y"
proof -
  define p where "p = Y * cw + X"
  define q where "q = Y' * cw + X'"
  have "p \<noteq> q" using grid_inj[OF assms(1,2,4,5)] ne unfolding p_def q_def by blast
  moreover have "0 \<le> p" "0 \<le> q" unfolding p_def q_def using assms by simp_all
  ultimately have "nat (p * 4) + 3 < nat (q * 4) \<or> nat (q * 4) + 3 < nat (p * 4)" by linarith
  then show ?thesis
    unfolding pixel_at_def Let_def off p_def[symmetric] q_def[symmetric] by auto
qed

lemma place_pixel_gray:
  assumes d: "depth i \<noteq> 4" "depth i \<noteq> 3"
    and inside: "0 \<le> int x + xoff" "int x + xoff < cw" "0 \<le> int y + yoff" "int y + yoff < ch"
    and len: "4 * (nat cw * nat ch) \<le> length c"
    and src: "nat ((int y * width i + int x) * depth i) < length (buf i)"
             "0 \<le> (int y * width i + int x) * depth i"
  shows "place_pixel cw ch xoff yoff i (int y) (int x) c =
     Inr (c[nat (((int y + yoff) * cw + (int x + xoff)) * 4) := buf i ! nat ((int y * width i + int x) * depth i),
            nat (((int y + yoff) * cw + (int x + xoff)) * 4) + 1 := buf i ! nat ((int y * width i + int x) * depth i),
            nat (((int y + yoff) * cw + (int x + xoff)) * 4) + 2 := buf i ! nat ((int y * width i + int x) * depth i),
            nat (((int y + yoff) * cw + (int x + xoff)) * 4) + 3 := 255])"
proof -
  define e where "e = (int y + yoff) * cw + (int x + xoff)"
  define off where "off = nat (e * 4)"
  define j where "j = nat ((int y * width i + int x) * depth i)"
  from grid_bound[OF inside] have e: "0 \<le> e" "e < ch * cw" by (simp_all add: e_def)
  have cpos: "0 < cw" "0 < ch" using inside by linarith+
  have "int (4 * (nat cw * nat ch)) = 4 * (ch * cw)" using cpos by (simp add: mult.commute)
  then have "4 * (ch * cw) \<le> int (length c)" using len by linarith
  then have o3: "off + 3 < length c" using e unfolding off_def by linarith
  have oi: "((int y + yoff) * cw + int x + xoff) * 4 = int off"
    using e by (simp add: off_def e_def algebra_simps)
  have ji: "(int y * width i + int x) * depth i = int j" using src(2) by (simp add: j_def)
  have "place_pixel cw ch xoff yoff i (int y) (int x) c = copy_gray c (int off) (buf i) (int j)"
    unfolding place_pixel_def Let_def oi ji using d inside by simp
  also have "\<dots> = Inr (c[off := buf i ! j, off + 1 := buf i ! j, off + 2 := buf i ! j, off + 3 := 255])"
    using o3 src(1) by (intro copy_gray_ok) (simp_all add: j_def)
  finally show ?thesis unfolding off_def e_def j_def .
qed

text \<open>
  Claim C2 as stated fails.  A 1 by 1 tile of depth 2 (gray and alpha) placed on a
  1 by 1 canvas raises no error and writes the pixel: the final \<^verbatim>\<open>else\<close> copies the
  first byte of the source pixel into red, green and blue and sets alpha to 255.
\<close>

theorem depth_two_is_placed_counterexample:
  "place_tile 1 1 0 0 \<lparr>buf = [7, 9], depth = 2, width = 1, height = 1\<rparr> [0, 0, 0, 0]
     = Inr [7, 7, 7, 255]"
  by (simp add: place_tile_def place_pixel_def copy_gray_def and_then_def rd_def wr_def)

text \<open>
  Claim C2, amended.  A tile whose depth is neither 4 nor 3 is placed by the gray
  branch whatever its depth is: for a positive depth, a tile buffer of at least
  \<open>height * width * depth\<close> bytes and a canvas of at least \<open>4 * cw * ch\<close> bytes the placement
  ends without error, and every canvas pixel \<open>(X, Y)\<close> that lies under the tile has
  red, green and blue equal to the first byte of its source pixel and alpha 255,
  while every other canvas pixel is as it was.
\<close>

theorem other_depths_placed_as_gray:
  assumes d: "depth i \<noteq> 4" "depth i \<noteq> 3" "0 < depth i"
    and ilen: "nat (height i) * nat (width i) * nat (depth i) \<le> length (buf i)"
    and len: "4 * (nat cw * nat ch) \<le> length canvas"
  shows "\<exists>canvas'. place_tile cw ch xoff yoff i canvas = Inr canvas'
     \<and> length canvas' = length canvas
     \<and> (\<forall>X Y. 0 \<le> X \<and> X < cw \<and> 0 \<le> Y \<and> Y < ch \<longrightarrow>
          pixel_at cw canvas' X Y =
            (if xoff \<le> X \<and> X < xoff + width i \<and> yoff \<le> Y \<and> Y < yoff + height i
             then (buf i ! nat (((Y - yoff) * width i + (X - xoff)) * depth i),
                   buf i ! nat (((Y - yoff) * width i + (X - xoff)) * depth i),
                   buf i ! nat (((Y - yoff) * width i + (X - xoff)) * depth i), 255)
             else pixel_at cw canvas X Y))"
proof -
  define w where "w = nat (width i)"
  define h where "h = nat (height i)"
  define covered where "covered X Y \<longleftrightarrow>
      xoff \<le> X \<and> X < xoff + width i \<and> yoff \<le> Y \<and> Y < yoff + height i" for X Y
  define sidx where "sidx X Y = (Y - yoff) * width i + (X - xoff)" for X Y
  define gray where "gray X Y = (buf i ! nat (sidx X Y * depth i), buf i ! nat (sidx X Y * depth i),
      buf i ! nat (sidx X Y * depth i), (255 :: byte))" for X Y
  define Inv where "Inv k c \<longleftrightarrow> length c = length canvas
      \<and> (\<forall>X Y. 0 \<le> X \<and> X < cw \<and> 0 \<le> Y \<and> Y < ch \<longrightarrow>
            pixel_at cw c X Y = (if covered X Y \<and> sidx X Y < int k then gray X Y
                                 else pixel_at cw canvas X Y))"
    for k :: nat and c :: "byte list"
  have "\<exists>c'. for_each [0..<h] (\<lambda>y. for_each [0..<w]
           (\<lambda>x. place_pixel cw ch xoff yoff i (int y) (int x))) canvas = Inr c' \<and> Inv (h * w) c'"
  proof (rule for_each_grid)
    show "Inv 0 canvas" by (simp add: Inv_def covered_def sidx_def) (smt (verit) mult_nonneg_nonneg)
  next
    fix y x c
    assume y: "y < h" and x: "x < w" and inv: "Inv (y * w + x) c"
    define k where "k = y * w + x"
    from x have wi: "int w = width i" "int x < width i" by (simp_all add: w_def)
    from y have hi: "int h = height i" "int y < height i" by (simp_all add: h_def)
    have ki: "int k = int y * width i + int x" by (simp add: k_def wi(1))
    from inv have lc: "length c = length canvas"
      and px: "\<And>X Y. 0 \<le> X \<Longrightarrow> X < cw \<Longrightarrow> 0 \<le> Y \<Longrightarrow> Y < ch \<Longrightarrow>
            pixel_at cw c X Y = (if covered X Y \<and> sidx X Y < int k then gray X Y
                                 else pixel_at cw canvas X Y)"
      by (simp_all add: Inv_def k_def)
    have here: "sidx X Y = int k \<longleftrightarrow> X = int x + xoff \<and> Y = int y + yoff" if "covered X Y" for X Y
    proof
      assume "sidx X Y = int k"
      then have "(Y - yoff) * width i + (X - xoff) = int y * width i + int x"
        by (simp add: sidx_def ki)
      from grid_inj[OF _ _ _ _ this] that wi(2) show "X = int x + xoff \<and> Y = int y + yoff"
        by (simp add: covered_def)
    next
      assume "X = int x + xoff \<and> Y = int y + yoff"
      then show "sidx X Y = int k" by (simp add: sidx_def ki)
    qed
    have cov: "covered (int x + xoff) (int y + yoff)"
      using wi(2) hi(2) by (simp add: covered_def)
    show "\<exists>c'. place_pixel cw ch xoff yoff i (int y) (int x) c = Inr c' \<and> Inv (Suc (y * w + x)) c'"
    proof (cases "int x + xoff < 0 \<or> int y + yoff < 0 \<or> cw \<le> int x + xoff \<or> ch \<le> int y + yoff")
      case True
      then have step: "place_pixel cw ch xoff yoff i (int y) (int x) c = Inr c"
        by (auto simp: place_pixel_def Let_def)
      have "Inv (Suc k) c"
        unfolding Inv_def
      proof (intro conjI allI impI)
        show "length c = length canvas" by (rule lc)
      next
        fix X Y assume in_canvas: "0 \<le> X \<and> X < cw \<and> 0 \<le> Y \<and> Y < ch"
        have "sidx X Y \<noteq> int k" if "covered X Y"
          using here[OF that] in_canvas True by auto
        then have "(covered X Y \<and> sidx X Y < int (Suc k)) \<longleftrightarrow> (covered X Y \<and> sidx X Y < int k)"
          by auto
        with px[of X Y] in_canvas
        show "pixel_at cw c X Y = (if covered X Y \<and> sidx X Y < int (Suc k) then gray X Y
                                 else pixel_at cw canvas X Y)"
          by simp
      qed
      with step show ?thesis by (simp add: k_def)
    next
      case False
      then have inside: "0 \<le> int x + xoff" "int x + xoff < cw" "0 \<le> int y + yoff" "int y + yoff < ch"
        by simp_all
      define off where "off = nat (((int y + yoff) * cw + (int x + xoff)) * 4)"
      define v where "v = buf i ! nat ((int y * width i + int x) * depth i)"
      define c' where "c' = c[off := v, off + 1 := v, off + 2 := v, off + 3 := 255]"
      have "Suc y * w \<le> h * w" using y by (intro mult_le_mono1) simp
      then have kb: "Suc k \<le> h * w" using x by (simp add: k_def)
      have dn: "0 < nat (depth i)" using d(3) by simp
      have "Suc k * nat (depth i) \<le> h * w * nat (depth i)" using kb by (intro mult_le_mono1)
      moreover have "k * nat (depth i) < Suc k * nat (depth i)" using dn by simp
      ultimately have "k * nat (depth i) < h * w * nat (depth i)" by linarith
      then have "k * nat (depth i) < length (buf i)"
        using ilen unfolding h_def[symmetric] w_def[symmetric] by linarith
      moreover have "nat ((int y * width i + int x) * depth i) = k * nat (depth i)"
        using d(3) by (simp add: ki[symmetric] nat_mult_distrib)
      ultimately have src: "nat ((int y * width i + int x) * depth i) < length (buf i)" by simp
      have src0: "0 \<le> (int y * width i + int x) * depth i"
        using d(3) by (simp add: ki[symmetric])
      have step: "place_pixel cw ch xoff yoff i (int y) (int x) c = Inr c'"
        unfolding c'_def off_def v_def
        using lc len by (intro place_pixel_gray[OF d(1,2) inside _ src src0]) simp
      define e where "e = (int y + yoff) * cw + (int x + xoff)"
      from grid_bound[OF inside] have e: "0 \<le> e" "e < ch * cw" by (simp_all add: e_def)
      have cpos: "0 < cw" "0 < ch" using inside by linarith+
      have "int (4 * (nat cw * nat ch)) = 4 * (ch * cw)" using cpos by (simp add: mult.commute)
      then have "4 * (ch * cw) \<le> int (length c)" using lc len by linarith
      then have o3: "off + 3 < length c" using e unfolding off_def e_def[symmetric] by linarith
      have "Inv (Suc k) c'"
        unfolding Inv_def
      proof (intro conjI allI impI)
        show "length c' = length canvas" by (simp add: c'_def lc)
      next
        fix X Y assume in_canvas: "0 \<le> X \<and> X < cw \<and> 0 \<le> Y \<and> Y < ch"
        show "pixel_at cw c' X Y = (if covered X Y \<and> sidx X Y < int (Suc k) then gray X Y
                                 else pixel_at cw canvas X Y)"
        proof (cases "X = int x + xoff \<and> Y = int y + yoff")
          case True
          then have s: "sidx X Y = int k" using here[of X Y] cov by simp
          have "pixel_at cw c' X Y = (v, v, v, 255)"
            unfolding c'_def using True by (intro pixel_at_update_same[OF o3]) (simp add: off_def)
          moreover have "gray X Y = (v, v, v, 255)"
            by (simp add: gray_def s ki v_def)
          ultimately show ?thesis using True cov s by simp
        next
          case False
          then have ne: "X \<noteq> int x + xoff \<or> Y \<noteq> int y + yoff" by simp
          have "pixel_at cw c' X Y = pixel_at cw c X Y"
            unfolding c'_def using in_canvas inside
            by (intro pixel_at_update_other[OF _ _ _ _ _ _ ne]) (simp_all add: off_def)
          moreover have "sidx X Y \<noteq> int k" if "covered X Y"
            using here[OF that] False by simp
          then have "(covered X Y \<and> sidx X Y < int (Suc k)) \<longleftrightarrow> (covered X Y \<and> sidx X Y < int k)"
            by auto
          ultimately show ?thesis using px[of X Y] in_canvas by simp
        qed
      qed
      with step show ?thesis by (simp add: k_def)
    qed
  qed
  then obtain c' where run: "place_tile cw ch xoff yoff i canvas = Inr c'" and fin: "Inv (h * w) c'"
    unfolding place_tile_def h_def w_def by (elim exE conjE)
  have all: "sidx X Y < int (h * w)" if "covered X Y" for X Y
  proof -
    from that have a: "0 \<le> X - xoff" "X - xoff < width i" "0 \<le> Y - yoff" "Y - yoff < height i"
      by (simp_all add: covered_def)
    then have "int w = width i" "int h = height i" by (simp_all add: w_def h_def)
    with grid_bound[OF a] show ?thesis by (simp add: sidx_def)
  qed
  have "\<forall>X Y. 0 \<le> X \<and> X < cw \<and> 0 \<le> Y \<and> Y < ch \<longrightarrow>
          pixel_at cw c' X Y = (if covered X Y then gray X Y else pixel_at cw canvas X Y)"
    using fin all unfolding Inv_def by auto
  with run fin show ?thesis
    unfolding Inv_def covered_def gray_def sidx_def by blast
qed

theorem other_depths_placed_as_gray_witness:
  "depth \<lparr>buf = [10, 11, 20, 21], depth = 2, width = 2, height = 1\<rparr> \<noteq> 4
   \<and> depth \<lparr>buf = [10, 11, 20, 21], depth = 2, width = 2, height = 1\<rparr> \<noteq> 3
   \<and> 0 < depth \<lparr>buf = [10, 11, 20, 21], depth = 2, width = 2, height = 1\<rparr>
   \<and> nat 1 * nat 2 * nat 2 \<le> length [10, 11, 20, 21 :: byte]
   \<and> 4 * (nat 2 * nat 1) \<le> length [1, 2, 3, 4, 5, 6, 7, 8 :: byte]
   \<and> place_tile 2 1 1 0 \<lparr>buf = [10, 11, 20, 21], depth = 2, width = 2, height = 1\<rparr>
         [1, 2, 3, 4, 5, 6, 7, 8] = Inr [1, 2, 3, 4, 10, 10, 10, 255]"
proof -
  have e: "place_tile 2 1 1 0 \<lparr>buf = [10, 11, 20, 21], depth = 2, width = 2, height = 1\<rparr>
         [1, 2, 3, 4, 5, 6, 7, 8] = Inr [1, 2, 3, 4, 10, 10, 10, 255]"
    by (simp add: place_tile_def place_pixel_def copy_gray_def and_then_def rd_def wr_def upt_rec)
  from other_depths_placed_as_gray [where i = "\<lparr>buf = [10, 11, 20, 21], depth = 2, width = 2, height = 1\<rparr>"
      and canvas = "[1, 2, 3, 4, 5, 6, 7, 8]" and cw = 2 and ch = 1 and xoff = 1 and yoff = 0] e
  show ?thesis by simp
qed

section \<open>Elevation normalization\<close>

lemma unat_byte_less: "unat (r :: 8 word) < 256"
  using unsigned_less[of r, where 'a = nat] by simp

lemma unat_ucast_byte: "unat (ucast (r::8 word) :: 32 word) = unat r"
  using unat_byte_less[of r] by (simp add: unsigned_ucast_eq take_bit_nat_eq_self)

lemma unat_pack: "unat (pack r g b) = unat r * 65536 + unat g * 256 + unat b"
proof -
  have r: "unat r < 256" and g: "unat g < 256" and b: "unat b < 256"
    by (rule unat_byte_less)+
  have r': "unat r * 65536 < 4294967296" and g': "unat g * 256 < 4294967296"
    using r g by linarith+
  have 1: "unat (push_bit 16 (ucast r :: 32 word)) = unat r * 65536"
    using r' by (simp add: push_bit_eq_mult unat_word_ariths unat_ucast_byte)
  have 2: "unat (push_bit 8 (ucast g :: 32 word)) = unat g * 256"
    using g' by (simp add: push_bit_eq_mult unat_word_ariths unat_ucast_byte)
  have s: "unat r * 65536 + unat g * 256 + unat b < 4294967296"
    using r g b by linarith
  have "unat (pack r g b) =
      ((unat r * 65536 + unat g * 256) mod 4294967296 + unat b) mod 4294967296"
    unfolding pack_def by (simp add: unat_word_ariths 1 2 unat_ucast_byte)
  also have "\<dots> = unat r * 65536 + unat g * 256 + unat b"
    using s by simp
  finally show ?thesis .
qed

lemma pack_le: "pack r g b \<le> 0xFFFFFF"
proof -
  have "unat r < 256" "unat g < 256" "unat b < 256" by (rule unat_byte_less)+
  then have "unat (pack r g b) \<le> 16777215" unfolding unat_pack by linarith
  then show ?thesis by (simp add: word_le_nat_alt)
qed

lemma pixel_elevation_packed:
  assumes "4 * k + 2 < length c"
  shows "pixel_elevation c (4 * int k) = Inr (packed c k)"
proof -
  have r0: "rd c (4 * int k) = Inr (c ! (4 * k))"
    using rd_nat[of "4 * k" c] assms by simp
  have r1: "rd c (4 * int k + 1) = Inr (c ! (4 * k + 1))"
    using rd_nat[of "4 * k + 1" c] assms by (simp add: add.commute)
  have r2: "rd c (4 * int k + 2) = Inr (c ! (4 * k + 2))"
    using rd_nat[of "4 * k + 2" c] assms by (simp add: add.commute)
  show ?thesis
    by (simp only: pixel_elevation_def r0 r1 r2 and_then_def packed_def sum.case)
qed

lemma scan_pixel_step:
  assumes "4 * k + 2 < length c"
  shows "scan_pixel c (4 * int k, st) =
     Inr (4 * int (Suc k),
          \<lparr>min_elevation = (if min_elevation st > packed c k then packed c k else min_elevation st),
           max_elevation = (if max_elevation st < packed c k then packed c k else max_elevation st),
           avg_elevation = avg_elevation st
              + (real (unat (packed c k)) - avg_elevation st) / real (unat (counter st + 1)),
           counter = counter st + 1\<rparr>)"
  by (simp add: scan_pixel_def pixel_elevation_packed[OF assms] and_then_def Let_def)

lemma scan_canvas_stats:
  assumes len: "4 * (nat ch * nat cw) \<le> length canvas"
  shows "\<exists>off st. scan_canvas cw ch canvas = Inr (off, st)
      \<and> (\<forall>j < nat ch * nat cw.
            min_elevation st \<le> packed canvas j \<and> packed canvas j \<le> max_elevation st)
      \<and> (0 < nat ch * nat cw \<longrightarrow>
            (\<exists>j < nat ch * nat cw. min_elevation st = packed canvas j)
          \<and> (\<exists>j < nat ch * nat cw. max_elevation st = packed canvas j))"
proof -
  define Inv where "Inv k s \<longleftrightarrow>
      fst s = 4 * int k
    \<and> (\<forall>j < k. min_elevation (snd s) \<le> packed canvas j \<and> packed canvas j \<le> max_elevation (snd s))
    \<and> (k = 0 \<longrightarrow> min_elevation (snd s) = 0xFFFFFF \<and> max_elevation (snd s) = 0)
    \<and> (0 < k \<longrightarrow> (\<exists>j < k. min_elevation (snd s) = packed canvas j)
                 \<and> (\<exists>j < k. max_elevation (snd s) = packed canvas j))"
    for k :: nat and s :: "int \<times> elevation_stats"
  have "\<exists>s'. for_each [0..<nat ch] (\<lambda>y. for_each [0..<nat cw] (\<lambda>x. scan_pixel canvas))
           (0, initial_stats) = Inr s' \<and> Inv (nat ch * nat cw) s'"
  proof (rule for_each_grid)
    show "Inv 0 (0, initial_stats)" by (simp add: Inv_def initial_stats_def)
  next
    fix y x s
    assume y: "y < nat ch" and x: "x < nat cw" and inv: "Inv (y * nat cw + x) s"
    define k where "k = y * nat cw + x"
    obtain off st where s: "s = (off, st)" by (cases s)
    have "Suc y * nat cw \<le> nat ch * nat cw" using y by (intro mult_le_mono1) simp
    then have k: "k < nat ch * nat cw" using x by (simp add: k_def)
    then have rng: "4 * k + 2 < length canvas" using len by linarith
    from inv have off: "off = 4 * int k"
      and bnd: "\<forall>j < k. min_elevation st \<le> packed canvas j \<and> packed canvas j \<le> max_elevation st"
      and zero: "k = 0 \<longrightarrow> min_elevation st = 0xFFFFFF \<and> max_elevation st = 0"
      and pos: "0 < k \<longrightarrow> (\<exists>j < k. min_elevation st = packed canvas j)
                 \<and> (\<exists>j < k. max_elevation st = packed canvas j)"
      by (simp_all add: Inv_def s k_def)
    define pe where "pe = packed canvas k"
    have pe: "pe \<le> 0xFFFFFF" by (simp add: pe_def packed_def pack_le)
    define st' where "st' =
          \<lparr>min_elevation = (if min_elevation st > pe then pe else min_elevation st),
           max_elevation = (if max_elevation st < pe then pe else max_elevation st),
           avg_elevation = avg_elevation st
              + (real (unat pe) - avg_elevation st) / real (unat (counter st + 1)),
           counter = counter st + 1\<rparr>"
    have step: "scan_pixel canvas s = Inr (4 * int (Suc k), st')"
      unfolding s off st'_def pe_def by (rule scan_pixel_step[OF rng])
    have mn: "min_elevation st' \<le> pe" and mx: "pe \<le> max_elevation st'"
      by (auto simp: st'_def)
    have mono: "min_elevation st' \<le> min_elevation st" "max_elevation st \<le> max_elevation st'"
      by (auto simp: st'_def)
    have b': "\<forall>j < Suc k. min_elevation st' \<le> packed canvas j \<and> packed canvas j \<le> max_elevation st'"
    proof (intro allI impI)
      fix j assume "j < Suc k"
      then consider "j < k" | "j = k" by linarith
      then show "min_elevation st' \<le> packed canvas j \<and> packed canvas j \<le> max_elevation st'"
      proof cases
        case 1
        with bnd mono show ?thesis by (meson order_trans)
      next
        case 2
        with mn mx show ?thesis by (simp add: pe_def)
      qed
    qed
    have emin: "\<exists>j < Suc k. min_elevation st' = packed canvas j"
    proof (cases "min_elevation st > pe")
      case True
      then have "min_elevation st' = packed canvas k" by (simp add: st'_def pe_def)
      then show ?thesis by blast
    next
      case False
      then have same: "min_elevation st' = min_elevation st" by (simp add: st'_def)
      show ?thesis
      proof (cases "k = 0")
        case True
        with zero False pe have "min_elevation st = pe" by simp
        with same show ?thesis by (auto simp: pe_def)
      next
        case False
        with pos obtain j where "j < k" "min_elevation st = packed canvas j" by auto
        with same show ?thesis by (auto intro: less_SucI)
      qed
    qed
    have emax: "\<exists>j < Suc k. max_elevation st' = packed canvas j"
    proof (cases "max_elevation st < pe")
      case True
      then have "max_elevation st' = packed canvas k" by (simp add: st'_def pe_def)
      then show ?thesis by blast
    next
      case False
      then have same: "max_elevation st' = max_elevation st" by (simp add: st'_def)
      show ?thesis
      proof (cases "k = 0")
        case True
        with zero False have "\<not> 0 < pe" by simp
        then have "pe = 0" using word_neq_0_conv[of pe] by blast
        with zero True have "max_elevation st = pe" by simp
        with same show ?thesis by (auto simp: pe_def)
      next
        case False
        with pos obtain j where "j < k" "max_elevation st = packed canvas j" by auto
        with same show ?thesis by (auto intro: less_SucI)
      qed
    qed
    have "Inv (Suc k) (4 * int (Suc k), st')"
      unfolding Inv_def using b' emin emax by simp
    with step show "\<exists>s'. scan_pixel canvas s = Inr s' \<and> Inv (Suc (y * nat cw + x)) s'"
      by (auto simp: k_def)
  qed
  then obtain s' where r: "scan_canvas cw ch canvas = Inr s'" and i: "Inv (nat ch * nat cw) s'"
    by (auto simp: scan_canvas_def)
  obtain off st where s': "s' = (off, st)" by (cases s')
  from i show ?thesis unfolding r s' Inv_def by auto
qed

lemma rewrite_pixel_step:
  assumes len: "4 * k + 2 < length c"
    and rng: "- 1 < c_round (real (unat (packed c k - mn)) * ratio)"
             "c_round (real (unat (packed c k - mn)) * ratio) < 256"
  shows "rewrite_pixel mn ratio (4 * int k, c) =
     Inr (4 * int (Suc k),
          c[4 * k + 2 := word_of_int (trunc (c_round (real (unat (packed c k - mn)) * ratio))),
            4 * k + 1 := word_of_int (trunc (c_round (real (unat (packed c k - mn)) * ratio))),
            4 * k := word_of_int (trunc (c_round (real (unat (packed c k - mn)) * ratio)))])"
proof -
  define v :: byte where "v = word_of_int (trunc (c_round (real (unat (packed c k - mn)) * ratio)))"
  have d: "double_to_uchar (c_round (real (unat (packed c k - mn)) * ratio)) = Inr v"
    using rng by (simp add: double_to_uchar_def v_def)
  have w2: "wr c (4 * int k + 2) v = Inr (c[4 * k + 2 := v])"
    using wr_nat[of "4 * k + 2" c v] len by (simp add: add.commute)
  have w1: "wr (c[4 * k + 2 := v]) (4 * int k + 1) v = Inr (c[4 * k + 2 := v, 4 * k + 1 := v])"
    using wr_nat[of "4 * k + 1" "c[4 * k + 2 := v]" v] len by (simp add: add.commute)
  have w0: "wr (c[4 * k + 2 := v, 4 * k + 1 := v]) (4 * int k) v
      = Inr (c[4 * k + 2 := v, 4 * k + 1 := v, 4 * k := v])"
    using wr_nat[of "4 * k" "c[4 * k + 2 := v, 4 * k + 1 := v]" v] len by simp
  have o: "4 * int k + 4 = 4 * int (Suc k)" by simp
  show ?thesis
    unfolding v_def[symmetric]
    by (simp only: rewrite_pixel_def prod.case pixel_elevation_packed[OF len] and_then_def
        sum.case d w2 w1 w0 o)
qed

lemma rewrite_canvas_result:
  assumes len: "4 * (nat ch * nat cw) \<le> length canvas"
    and rng: "\<forall>j < nat ch * nat cw.
        - 1 < c_round (real (unat (packed canvas j - mn)) * ratio)
        \<and> c_round (real (unat (packed canvas j - mn)) * ratio) < 256"
  shows "\<exists>off c'. rewrite_canvas cw ch mn ratio canvas = Inr (off, c')
      \<and> length c' = length canvas
      \<and> (\<forall>j < nat ch * nat cw.
            c' ! (4 * j) = word_of_int (trunc (c_round (real (unat (packed canvas j - mn)) * ratio)))
          \<and> c' ! (4 * j + 1) = word_of_int (trunc (c_round (real (unat (packed canvas j - mn)) * ratio)))
          \<and> c' ! (4 * j + 2) = word_of_int (trunc (c_round (real (unat (packed canvas j - mn)) * ratio)))
          \<and> c' ! (4 * j + 3) = canvas ! (4 * j + 3))"
proof -
  define val :: "nat \<Rightarrow> byte" where
    "val j = word_of_int (trunc (c_round (real (unat (packed canvas j - mn)) * ratio)))" for j
  define Inv where "Inv k s \<longleftrightarrow>
      fst s = 4 * int k \<and> length (snd s) = length canvas
    \<and> (\<forall>j < k. snd s ! (4 * j) = val j \<and> snd s ! (4 * j + 1) = val j \<and> snd s ! (4 * j + 2) = val j
                \<and> snd s ! (4 * j + 3) = canvas ! (4 * j + 3))
    \<and> (\<forall>p. 4 * k \<le> p \<longrightarrow> snd s ! p = canvas ! p)"
    for k :: nat and s :: "int \<times> byte list"
  have "\<exists>s'. for_each [0..<nat ch] (\<lambda>y. for_each [0..<nat cw] (\<lambda>x. rewrite_pixel mn ratio))
           (0, canvas) = Inr s' \<and> Inv (nat ch * nat cw) s'"
  proof (rule for_each_grid)
    show "Inv 0 (0, canvas)" by (simp add: Inv_def)
  next
    fix y x s
    assume y: "y < nat ch" and x: "x < nat cw" and inv: "Inv (y * nat cw + x) s"
    define k where "k = y * nat cw + x"
    obtain off c where s: "s = (off, c)" by (cases s)
    have "Suc y * nat cw \<le> nat ch * nat cw" using y by (intro mult_le_mono1) simp
    then have k: "k < nat ch * nat cw" using x by (simp add: k_def)
    from inv have off: "off = 4 * int k" and lc: "length c = length canvas"
      and old: "\<forall>j < k. c ! (4 * j) = val j \<and> c ! (4 * j + 1) = val j \<and> c ! (4 * j + 2) = val j
                \<and> c ! (4 * j + 3) = canvas ! (4 * j + 3)"
      and rest: "\<forall>p. 4 * k \<le> p \<longrightarrow> c ! p = canvas ! p"
      by (simp_all add: Inv_def s k_def)
    have l2: "4 * k + 2 < length c" using k len lc by linarith
    have pk: "packed c k = packed canvas k" using rest by (simp add: packed_def)
    define c' where "c' = c[4 * k + 2 := val k, 4 * k + 1 := val k, 4 * k := val k]"
    have step: "rewrite_pixel mn ratio s = Inr (4 * int (Suc k), c')"
      unfolding s off c'_def val_def pk[symmetric]
      using rng k by (intro rewrite_pixel_step[OF l2]) (simp_all add: pk)
    have lc': "length c' = length canvas" by (simp add: c'_def lc)
    have other: "c' ! p = c ! p" if "p < 4 * k \<or> 4 * k + 3 \<le> p" for p
      using that by (auto simp: c'_def)
    have here: "c' ! (4 * k) = val k" "c' ! (4 * k + 1) = val k" "c' ! (4 * k + 2) = val k"
      using l2 by (simp_all add: c'_def)
    have d': "\<forall>j < Suc k. c' ! (4 * j) = val j \<and> c' ! (4 * j + 1) = val j \<and> c' ! (4 * j + 2) = val j
                \<and> c' ! (4 * j + 3) = canvas ! (4 * j + 3)"
    proof (intro allI impI)
      fix j assume "j < Suc k"
      then consider "j < k" | "j = k" by linarith
      then show "c' ! (4 * j) = val j \<and> c' ! (4 * j + 1) = val j \<and> c' ! (4 * j + 2) = val j
                \<and> c' ! (4 * j + 3) = canvas ! (4 * j + 3)"
      proof cases
        case 1
        then have "4 * j < 4 * k" "4 * j + 1 < 4 * k" "4 * j + 2 < 4 * k" "4 * j + 3 < 4 * k"
          by simp_all
        with old 1 show ?thesis by (simp add: other)
      next
        case 2
        with here rest show ?thesis by (simp add: other)
      qed
    qed
    have r': "\<forall>p. 4 * Suc k \<le> p \<longrightarrow> c' ! p = canvas ! p"
      using rest by (simp add: other)
    have "Inv (Suc k) (4 * int (Suc k), c')"
      unfolding Inv_def using lc' d' r' by simp
    with step show "\<exists>s'. rewrite_pixel mn ratio s = Inr s' \<and> Inv (Suc (y * nat cw + x)) s'"
      by (auto simp: k_def)
  qed
  then obtain s' where r: "rewrite_canvas cw ch mn ratio canvas = Inr s'"
    and i: "Inv (nat ch * nat cw) s'"
    by (auto simp: rewrite_canvas_def)
  obtain off c' where s': "s' = (off, c')" by (cases s')
  from i show ?thesis unfolding r s' Inv_def val_def by auto
qed

lemma c_round_bounds:
  assumes "0 \<le> t" "t \<le> 255"
  shows "- 1 < c_round t \<and> c_round t < 256"
proof -
  have "0 \<le> \<lfloor>t + 1 / 2\<rfloor>" using assms(1) by simp
  then have lo: "(0::real) \<le> of_int \<lfloor>t + 1 / 2\<rfloor>" by simp
  have "real_of_int \<lfloor>t + 1 / 2\<rfloor> \<le> t + 1 / 2" by (rule of_int_floor_le)
  then have hi: "real_of_int \<lfloor>t + 1 / 2\<rfloor> < 256" using assms(2) by linarith
  have c: "c_round t = of_int \<lfloor>t + 1 / 2\<rfloor>" using assms(1) by (simp add: c_round_def)
  show ?thesis unfolding c using lo hi by linarith
qed

lemma scaled_bounds:
  assumes "mn \<le> p" "p \<le> (mx :: 32 word)"
  shows "0 \<le> real (unat (p - mn)) * (if mx > mn then 255 / real (unat (mx - mn)) else 1)
       \<and> real (unat (p - mn)) * (if mx > mn then 255 / real (unat (mx - mn)) else 1) \<le> 255"
proof (cases "mx > mn")
  case True
  define a where "a = unat p - unat mn"
  define d where "d = unat mx - unat mn"
  have a: "unat (p - mn) = a" unfolding a_def using assms(1) by (rule unat_sub)
  have d: "unat (mx - mn) = d" unfolding d_def using assms by (intro unat_sub) simp
  have "a \<le> d" unfolding a_def d_def
    using assms by (simp add: word_le_nat_alt diff_le_mono)
  then have le: "real a \<le> real d" by simp
  have "0 < d" unfolding d_def using True by (simp add: word_less_nat_alt)
  then have pos: "0 < real d" by simp
  have "real a * (255 / real d) \<le> 255"
    using le pos by (simp add: field_simps)
  moreover have "0 \<le> real a * (255 / real d)" by simp
  ultimately show ?thesis using True by (simp only: a d if_True)
next
  case False
  with assms have "p = mn" by simp
  with False show ?thesis by simp
qed

lemma scaled_max:
  assumes "mn < (mx :: 32 word)"
  shows "real (unat (mx - mn)) * (255 / real (unat (mx - mn))) = 255"
proof -
  define d where "d = unat (mx - mn)"
  have "mx - mn \<noteq> 0" using assms by simp
  then have "d \<noteq> 0" by (simp add: d_def unat_eq_zero)
  then have "real d * (255 / real d) = 255" by simp
  then show ?thesis unfolding d_def .
qed

lemma c_round_255: "word_of_int (trunc (c_round 255)) = (255 :: byte)"
  by (simp add: c_round_def trunc_def)

lemma c_round_0: "word_of_int (trunc (c_round 0)) = (0 :: byte)"
  by (simp add: c_round_def trunc_def)

text \<open>
  Claim C4.  The canvas holds \<open>ch\<close> rows of \<open>cw\<close> pixels and \<open>packed canvas k\<close> is the
  24-bit value of pixel \<open>k\<close> before the pass.  With elevation mode on the pass ends
  without error; the alpha byte of every pixel is unchanged; a pixel that held the
  minimum ends with red, green and blue 0; a pixel that held the maximum while some
  pixel held less (so the maximum is greater than the minimum) ends with red, green
  and blue 255.  When the maximum equals the minimum every pixel holds the minimum,
  so every pixel ends with 0.
\<close>

theorem elevation_normalized:
  assumes len: "4 * (nat ch * nat cw) \<le> length canvas"
  shows "\<exists>canvas'. normalize_elevation True cw ch canvas = Inr canvas'
     \<and> length canvas' = length canvas
     \<and> (\<forall>k < nat ch * nat cw.
          canvas' ! (4 * k + 3) = canvas ! (4 * k + 3)
        \<and> ((\<forall>j < nat ch * nat cw. packed canvas k \<le> packed canvas j)
             \<longrightarrow> canvas' ! (4 * k) = 0 \<and> canvas' ! (4 * k + 1) = 0 \<and> canvas' ! (4 * k + 2) = 0)
        \<and> ((\<forall>j < nat ch * nat cw. packed canvas j \<le> packed canvas k)
             \<and> (\<exists>j < nat ch * nat cw. packed canvas j < packed canvas k)
             \<longrightarrow> canvas' ! (4 * k) = 255 \<and> canvas' ! (4 * k + 1) = 255 \<and> canvas' ! (4 * k + 2) = 255))"
proof -
  define n where "n = nat ch * nat cw"
  from scan_canvas_stats[OF len] obtain off st where
    scan_all: "scan_canvas cw ch canvas = Inr (off, st)
      \<and> (\<forall>j < nat ch * nat cw.
            min_elevation st \<le> packed canvas j \<and> packed canvas j \<le> max_elevation st)
      \<and> (0 < nat ch * nat cw \<longrightarrow>
            (\<exists>j < nat ch * nat cw. min_elevation st = packed canvas j)
          \<and> (\<exists>j < nat ch * nat cw. max_elevation st = packed canvas j))"
    by (elim exE)
  from scan_all have scan: "scan_canvas cw ch canvas = Inr (off, st)" by (rule conjunct1)
  have
    bnd: "\<forall>j < n. min_elevation st \<le> packed canvas j \<and> packed canvas j \<le> max_elevation st"
    unfolding n_def by (rule scan_all[THEN conjunct2, THEN conjunct1])
  have
    att: "0 < n \<longrightarrow> (\<exists>j < n. min_elevation st = packed canvas j)
                      \<and> (\<exists>j < n. max_elevation st = packed canvas j)"
    unfolding n_def by (rule scan_all[THEN conjunct2, THEN conjunct2])
  define mn where "mn = min_elevation st"
  define mx where "mx = max_elevation st"
  define ratio where "ratio = elevation_ratio st"
  have ratio: "ratio = (if mx > mn then 255 / real (unat (mx - mn)) else 1)"
    by (simp add: ratio_def elevation_ratio_def mn_def mx_def)
  define val :: "nat \<Rightarrow> byte" where
    "val j = word_of_int (trunc (c_round (real (unat (packed canvas j - mn)) * ratio)))" for j
  have rng: "\<forall>j < nat ch * nat cw.
        - 1 < c_round (real (unat (packed canvas j - mn)) * ratio)
        \<and> c_round (real (unat (packed canvas j - mn)) * ratio) < 256"
  proof (intro allI impI)
    fix j assume "j < nat ch * nat cw"
    with bnd have "mn \<le> packed canvas j" "packed canvas j \<le> mx"
      by (simp_all add: n_def mn_def mx_def)
    from scaled_bounds[OF this]
    show "- 1 < c_round (real (unat (packed canvas j - mn)) * ratio)
        \<and> c_round (real (unat (packed canvas j - mn)) * ratio) < 256"
      unfolding ratio by (intro c_round_bounds) simp_all
  qed
  from rewrite_canvas_result[OF len rng] obtain off' c' where
    rw_all: "rewrite_canvas cw ch mn ratio canvas = Inr (off', c')
      \<and> length c' = length canvas
      \<and> (\<forall>j < nat ch * nat cw.
            c' ! (4 * j) = word_of_int (trunc (c_round (real (unat (packed canvas j - mn)) * ratio)))
          \<and> c' ! (4 * j + 1) = word_of_int (trunc (c_round (real (unat (packed canvas j - mn)) * ratio)))
          \<and> c' ! (4 * j + 2) = word_of_int (trunc (c_round (real (unat (packed canvas j - mn)) * ratio)))
          \<and> c' ! (4 * j + 3) = canvas ! (4 * j + 3))"
    by (elim exE)
  have rw: "rewrite_canvas cw ch mn ratio canvas = Inr (off', c')"
    by (rule rw_all[THEN conjunct1])
  have lc: "length c' = length canvas"
    by (rule rw_all[THEN conjunct2, THEN conjunct1])
  have
    px: "\<forall>j < n. c' ! (4 * j) = val j \<and> c' ! (4 * j + 1) = val j \<and> c' ! (4 * j + 2) = val j
          \<and> c' ! (4 * j + 3) = canvas ! (4 * j + 3)"
    unfolding n_def val_def by (rule rw_all[THEN conjunct2, THEN conjunct2])
  have run: "normalize_elevation True cw ch canvas = Inr c'"
    unfolding normalize_elevation_def
    by (simp only: if_True scan and_then_def sum.case prod.case rw
        mn_def[symmetric] ratio_def[symmetric])
  have low: "val k = 0" if k: "k < n" and m: "\<forall>j < n. packed canvas k \<le> packed canvas j" for k
  proof -
    from k att obtain j where "j < n" "mn = packed canvas j" by (auto simp: mn_def)
    with m have "packed canvas k \<le> mn" by simp
    moreover from bnd k have "mn \<le> packed canvas k" by (simp add: mn_def)
    ultimately have "packed canvas k = mn" by simp
    then show ?thesis by (simp add: val_def c_round_0)
  qed
  have high: "val k = 255" if k: "k < n" and m: "\<forall>j < n. packed canvas j \<le> packed canvas k"
    and s: "\<exists>j < n. packed canvas j < packed canvas k" for k
  proof -
    from k att obtain j where "j < n" "mx = packed canvas j" by (auto simp: mx_def)
    with m have "mx \<le> packed canvas k" by simp
    moreover from bnd k have "packed canvas k \<le> mx" by (simp add: mx_def)
    ultimately have e: "packed canvas k = mx" by simp
    from s obtain j where "j < n" "packed canvas j < packed canvas k" by blast
    with bnd have lt: "mn < mx" unfolding e mn_def mx_def by (meson order_le_less_trans)
    show ?thesis
      unfolding val_def e ratio using lt by (simp only: if_True scaled_max c_round_255)
  qed
  have "\<forall>k < n.
          c' ! (4 * k + 3) = canvas ! (4 * k + 3)
        \<and> ((\<forall>j < n. packed canvas k \<le> packed canvas j)
             \<longrightarrow> c' ! (4 * k) = 0 \<and> c' ! (4 * k + 1) = 0 \<and> c' ! (4 * k + 2) = 0)
        \<and> ((\<forall>j < n. packed canvas j \<le> packed canvas k)
             \<and> (\<exists>j < n. packed canvas j < packed canvas k)
             \<longrightarrow> c' ! (4 * k) = 255 \<and> c' ! (4 * k + 1) = 255 \<and> c' ! (4 * k + 2) = 255)"
  proof (intro allI impI conjI)
    fix k assume k: "k < n"
    from px k show "c' ! (4 * k + 3) = canvas ! (4 * k + 3)" by blast
    {
      assume "\<forall>j < n. packed canvas k \<le> packed canvas j"
      from low[OF k this] px k
      show "c' ! (4 * k) = 0" "c' ! (4 * k + 1) = 0" "c' ! (4 * k + 2) = 0" by simp_all
    }
    {
      assume "(\<forall>j < n. packed canvas j \<le> packed canvas k)
             \<and> (\<exists>j < n. packed canvas j < packed canvas k)"
      then have "val k = 255" using high[OF k] by blast
      with px k
      show "c' ! (4 * k) = 255" "c' ! (4 * k + 1) = 255" "c' ! (4 * k + 2) = 255" by simp_all
    }
  qed
  with run lc show ?thesis unfolding n_def by blast
qed

lemma elevation_example:
  "normalize_elevation True 3 1 [0, 0, 1, 9,  0, 0, 3, 7,  0, 0, 2, 5]
     = Inr [0, 0, 0, 9,  255, 255, 255, 7,  128, 128, 128, 5]"
  by (simp add: normalize_elevation_def scan_canvas_def rewrite_canvas_def scan_pixel_def
      rewrite_pixel_def pixel_elevation_def pack_def initial_stats_def elevation_ratio_def
      c_round_def double_to_uchar_def trunc_def rd_def wr_def and_then_def Let_def
      upt_rec)

theorem elevation_normalized_witness:
  "4 * (nat 1 * nat 3) \<le> length [0, 0, 1, 9,  0, 0, 3, 7,  0, 0, 2, 5 :: byte]
   \<and> normalize_elevation True 3 1 [0, 0, 1, 9,  0, 0, 3, 7,  0, 0, 2, 5]
     = Inr [0, 0, 0, 9,  255, 255, 255, 7,  128, 128, 128, 5]"
  using elevation_normalized [where canvas = "[0, 0, 1, 9,  0, 0, 3, 7,  0, 0, 2, 5]" and ch = 1 and cw = 3]
    elevation_example
  by simp

section \<open>Tile sources\<close>

text \<open>
  Claim C3 as stated fails.  The first source of this run delivers bytes that begin
  with neither signature (\<^verbatim>\<open>GIF8\<close>); the engine does not abort: it skips that source and
  goes on to the next one, whose tile is placed.
\<close>

theorem unrecognized_source_skipped_counterexample:
  "place_sources (decodes_to \<lparr>buf = [9, 9, 9], depth = 3, width = 1, height = 1\<rparr>)
     read_jpeg_unsupported 1 1 1
     [(0, 0, Some [0x47, 0x49, 0x46, 0x38]), (0, 0, Some [0x89, 0x50, 0x4E, 0x47])] [0, 0, 0, 0]
   = Inr [9, 9, 9, 255]"
  by (simp add: place_source_def place_decoded_def png_magic_def jpeg_magic_def decodes_to_def
      place_tile_def place_pixel_def copy_rgb_def and_then_def rd_def wr_def)

text \<open>
  Claim C3, amended.  Bytes that begin with neither the PNG signature nor the JPEG
  signature are skipped: the body returns the canvas unchanged and the loop continues
  with the remaining sources.  The run aborts when the bytes are recognized and the
  decoder returns no image.
\<close>

theorem unrecognized_source_skipped:
  "(\<not> (4 \<le> length data \<and> take 4 data = png_magic) \<and> \<not> (2 \<le> length data \<and> take 2 data = jpeg_magic)
      \<longrightarrow> place_source read_png read_jpeg tilesize cw ch xoff yoff (Some data) canvas = Inr canvas
        \<and> place_sources read_png read_jpeg tilesize cw ch ((xoff, yoff, Some data) # rest) canvas
          = place_sources read_png read_jpeg tilesize cw ch rest canvas)
   \<and> (4 \<le> length data \<and> take 4 data = png_magic \<and> read_png data = Inr None
      \<longrightarrow> place_source read_png read_jpeg tilesize cw ch xoff yoff (Some data) canvas
          = Inl (Exit_failure Decode_failed))
   \<and> (\<not> (4 \<le> length data \<and> take 4 data = png_magic) \<and> 2 \<le> length data \<and> take 2 data = jpeg_magic
        \<and> read_jpeg data = Inr None
      \<longrightarrow> place_source read_png read_jpeg tilesize cw ch xoff yoff (Some data) canvas
          = Inl (Exit_failure Decode_failed))"
  by (auto simp: place_source_def place_decoded_def and_then_def)

theorem unrecognized_source_skipped_witness:
  "place_source read_png_unsupported read_jpeg_unsupported 1 1 1 0 0
       (Some [0x47, 0x49, 0x46, 0x38]) [0, 0, 0, 0] = Inr [0, 0, 0, 0]
   \<and> place_source read_png_unsupported read_jpeg_unsupported 1 1 1 0 0
       (Some [0x89, 0x50, 0x4E, 0x47, 0x0D]) [0, 0, 0, 0] = Inl (Exit_failure Decode_failed)
   \<and> place_source read_png_unsupported read_jpeg_unsupported 1 1 1 0 0
       (Some [0xFF, 0xD8, 0xFF]) [0, 0, 0, 0] = Inl (Exit_failure Decode_failed)"
  using unrecognized_source_skipped [of "[0x47, 0x49, 0x46, 0x38]" read_png_unsupported
      read_jpeg_unsupported 1 1 1 0 0 "[0, 0, 0, 0]" "[]"]
    unrecognized_source_skipped [of "[0x89, 0x50, 0x4E, 0x47, 0x0D]" read_png_unsupported
      read_jpeg_unsupported 1 1 1 0 0 "[0, 0, 0, 0]" "[]"]
    unrecognized_source_skipped [of "[0xFF, 0xD8, 0xFF]" read_png_unsupported
      read_jpeg_unsupported 1 1 1 0 0 "[0, 0, 0, 0]" "[]"]
  by (simp add: png_magic_def jpeg_magic_def read_png_unsupported_def read_jpeg_unsupported_def)

section \<open>Projection: trigonometry\<close>

text \<open>
  The projection is the Gudermannian function \<open>arctan (sinh t)\<close> and its inverse
  \<open>ln (tan r + 1 / cos r)\<close>.
\<close>

lemma sin_gt_m1: assumes "0 < cos (x::real)" shows "- 1 < sin x"
proof -
  have "(sin x)\<^sup>2 + (cos x)\<^sup>2 = 1" by simp
  moreover have "0 < (cos x)\<^sup>2" using assms by simp
  ultimately have "(sin x)\<^sup>2 < 1" by linarith
  then have "\<bar>sin x\<bar> < 1" by (simp add: abs_square_less_1)
  then show ?thesis by linarith
qed

lemma sec_tan_eq: assumes "cos (x::real) \<noteq> 0" shows "tan x + 1 / cos x = (1 + sin x) / cos x"
  using assms by (simp add: tan_def field_simps)

lemma sec_tan_pos: assumes "0 < cos (x::real)" shows "0 < tan x + 1 / cos x"
  using assms sin_gt_m1[OF assms] by (simp add: sec_tan_eq)

lemma deriv_sec_tan: assumes "cos x \<noteq> 0"
  shows "((\<lambda>x. tan x + 1 / cos x) has_real_derivative (1 + sin x) / (cos x)\<^sup>2) (at x)"
  using assms
  by (auto intro!: derivative_eq_intros simp: field_simps power2_eq_square)

lemma sec_tan_mono:
  assumes "- pi / 2 < a" "a \<le> b" "b < pi / 2"
  shows "tan a + 1 / cos a \<le> tan b + 1 / cos b"
proof (rule DERIV_nonneg_imp_nondecreasing[OF assms(2)])
  fix x assume x: "a \<le> x" "x \<le> b"
  then have c: "0 < cos x" using assms by (intro cos_gt_zero_pi) linarith+
  have "0 \<le> (1 + sin x) / (cos x)\<^sup>2" using sin_gt_m1[OF c] by simp
  with deriv_sec_tan[of x] c
  show "\<exists>y. ((\<lambda>x. tan x + 1 / cos x) has_real_derivative y) (at x) \<and> 0 \<le> y"
    by (intro exI[of _ "(1 + sin x) / (cos x)\<^sup>2"]) simp
qed


lemma trunc_range: assumes "- 1 < v" "v < 2 ^ 32" shows "0 \<le> trunc v \<and> trunc v < 2 ^ 32"
proof (cases "0 \<le> v")
  case True
  then have "trunc v = \<lfloor>v\<rfloor>" by (simp add: trunc_def)
  moreover have "\<lfloor>v\<rfloor> < 2 ^ 32" using assms(2) by (simp add: floor_less_iff)
  ultimately show ?thesis using True by simp
next
  case False
  then have "trunc v = \<lceil>v\<rceil>" by (simp add: trunc_def)
  moreover have "\<lceil>v\<rceil> = 0" using False assms(1) by (simp add: ceiling_eq_iff)
  ultimately show ?thesis by simp
qed

lemma cosh_sqrt: "sqrt (1 + (sinh t)\<^sup>2) = cosh (t::real)"
  by (metis add.commute cosh_real_nonneg cosh_square_eq real_sqrt_abs abs_of_nonneg)

lemma sec_tan_arctan_sinh:
  "tan (arctan (sinh t)) + 1 / cos (arctan (sinh t)) = exp (t::real)"
  by (simp add: tan_arctan cos_arctan sinh_plus_cosh cosh_sqrt)

lemma sinh_ln_sec_tan:
  assumes "0 < cos (r::real)"
  shows "sinh (ln (tan r + 1 / cos r)) = tan r"
proof -
  define g where "g = tan r + 1 / cos r"
  define h where "h = 1 / cos r - tan r"
  have g: "0 < g" unfolding g_def by (rule sec_tan_pos[OF assms])
  have c: "cos r \<noteq> 0" using assms by simp
  have id: "(1 + sin r) * (1 - sin r) = (cos r)\<^sup>2"
    using sin_cos_squared_add[of r] by (simp add: algebra_simps power2_eq_square)
  have "g = (1 + sin r) / cos r" unfolding g_def by (rule sec_tan_eq[OF c])
  moreover have "h = (1 - sin r) / cos r" unfolding h_def tan_def using c by (simp add: field_simps)
  ultimately have "g * h = ((1 + sin r) * (1 - sin r)) / (cos r)\<^sup>2"
    by (simp add: power2_eq_square)
  also have "\<dots> = 1" unfolding id using c by simp
  finally have "inverse g = h" by (rule inverse_unique)
  then have inv: "exp (- ln g) = h" using g by (simp add: exp_minus)
  have "sinh (ln g) = (g - h) / 2"
    unfolding sinh_def inv using g by simp
  also have "\<dots> = tan r" by (simp add: g_def h_def)
  finally show ?thesis unfolding g_def .
qed

section \<open>Projection: rounding errors\<close>

text \<open>
  On a platform that is accurate to \<open>u\<close> an operation whose exact result is at most \<open>B\<close>
  in absolute value returns it with an error of at most \<open>u * B\<close>.
\<close>

lemma accurate_nonneg: assumes "accurate u P" shows "0 \<le> u"
proof -
  from assms have "close_to u 0 (rnd P 0)" by (simp add: accurate_def)
  then have "\<bar>rnd P 0\<bar> \<le> u * (1 / 2 ^ 1022)" by (simp add: close_to_def)
  then have "0 \<le> u * (1 / 2 ^ 1022)" by linarith
  then show ?thesis by (simp add: zero_le_mult_iff)
qed

lemma close_to_err:
  assumes "close_to u e a" "0 \<le> u" "\<bar>e\<bar> \<le> B" "1 / 2 ^ 1022 \<le> B" "B \<le> 2 ^ 1023"
  shows "\<bar>a - e\<bar> \<le> u * B"
proof -
  from assms(1,3,5) have "\<bar>a - e\<bar> \<le> u * max \<bar>e\<bar> (1 / 2 ^ 1022)" by (simp add: close_to_def)
  also have "\<dots> \<le> u * B" using assms(2,3,4) by (intro mult_left_mono) simp_all
  finally show ?thesis .
qed

lemma rnd_err:
  assumes "accurate u P" "\<bar>v\<bar> \<le> B" "1 / 2 ^ 1022 \<le> B" "B \<le> 2 ^ 1023"
  shows "\<bar>rnd P v - v\<bar> \<le> u * B"
  using assms(1) by (intro close_to_err[OF _ accurate_nonneg[OF assms(1)] assms(2-4)]) (simp add: accurate_def)

lemma tan_err:
  assumes "accurate u P" "\<bar>tan v\<bar> \<le> B" "1 / 2 ^ 1022 \<le> B" "B \<le> 2 ^ 1023"
  shows "\<bar>c_tan P v - tan v\<bar> \<le> u * B"
  using assms(1) by (intro close_to_err[OF _ accurate_nonneg[OF assms(1)] assms(2-4)]) (simp add: accurate_def)

lemma cos_err:
  assumes "accurate u P" "\<bar>cos v\<bar> \<le> B" "1 / 2 ^ 1022 \<le> B" "B \<le> 2 ^ 1023"
  shows "\<bar>c_cos P v - cos v\<bar> \<le> u * B"
  using assms(1) by (intro close_to_err[OF _ accurate_nonneg[OF assms(1)] assms(2-4)]) (simp add: accurate_def)

lemma log_err:
  assumes "accurate u P" "0 < v" "\<bar>ln v\<bar> \<le> B" "1 / 2 ^ 1022 \<le> B" "B \<le> 2 ^ 1023"
  shows "\<bar>c_log P v - ln v\<bar> \<le> u * B"
  using assms(1,2) by (intro close_to_err[OF _ accurate_nonneg[OF assms(1)] assms(3-5)]) (simp add: accurate_def)

lemma atan_err:
  assumes "accurate u P" "\<bar>arctan v\<bar> \<le> B" "1 / 2 ^ 1022 \<le> B" "B \<le> 2 ^ 1023"
  shows "\<bar>c_atan P v - arctan v\<bar> \<le> u * B"
  using assms(1) by (intro close_to_err[OF _ accurate_nonneg[OF assms(1)] assms(2-4)]) (simp add: accurate_def)

lemma sinh_err:
  assumes "accurate u P" "\<bar>sinh v\<bar> \<le> B" "1 / 2 ^ 1022 \<le> B" "B \<le> 2 ^ 1023"
  shows "\<bar>c_sinh P v - sinh v\<bar> \<le> u * B"
  using assms(1) by (intro close_to_err[OF _ accurate_nonneg[OF assms(1)] assms(2-4)]) (simp add: accurate_def)

lemma exp_4_le: "exp (4::real) \<le> 81"
proof -
  have "exp (4::real) = exp 1 ^ 4" by (metis exp_of_nat_mult mult.right_neutral of_nat_numeral)
  also have "\<dots> \<le> 3 ^ 4" by (intro power_mono exp_le) simp
  finally show ?thesis by simp
qed

lemma cosh_le_exp_abs: "cosh (t::real) \<le> exp \<bar>t\<bar>"
proof -
  have "cosh t = cosh \<bar>t\<bar>" by simp
  also have "\<dots> = (exp \<bar>t\<bar> + exp (- \<bar>t\<bar>)) / 2" by (simp add: cosh_def)
  also have "\<dots> \<le> (exp \<bar>t\<bar> + exp \<bar>t\<bar>) / 2" by (intro divide_right_mono add_left_mono) simp_all
  finally show ?thesis by simp
qed

lemma cosh_le_81: assumes "\<bar>t::real\<bar> \<le> 4" shows "cosh t \<le> 81"
proof -
  have "cosh t \<le> exp \<bar>t\<bar>" by (rule cosh_le_exp_abs)
  also have "\<dots> \<le> exp 4" using assms by simp
  also have "\<dots> \<le> 81" by (rule exp_4_le)
  finally show ?thesis .
qed

lemma abs_sinh_le_cosh: "\<bar>sinh (t::real)\<bar> \<le> cosh t"
proof -
  have "sinh t \<le> cosh t" by (rule sinh_le_cosh_real)
  moreover have "- sinh t \<le> cosh t" using sinh_le_cosh_real[of "- t"] by simp
  ultimately show ?thesis by linarith
qed

lemma exp_ge_inv_81: assumes "\<bar>t::real\<bar> \<le> 4" shows "1 / 81 \<le> exp t"
proof -
  have "exp (- t) \<le> exp 4" using assms by simp
  then have "exp (- t) \<le> 81" using exp_4_le by linarith
  then have "1 / exp t \<le> 81" by (simp add: exp_minus inverse_eq_divide)
  then show ?thesis by (simp add: field_simps)
qed

lemma cosh_le_exp: assumes "\<bar>t::real\<bar> \<le> 4" shows "cosh t \<le> 3281 * exp t"
proof -
  define E where "E = exp t"
  have E: "1 / 81 \<le> E" unfolding E_def by (rule exp_ge_inv_81[OF assms])
  then have E0: "0 < E" by linarith
  have "1 / 81 * (1 / 81) \<le> E * E" using E by (intro mult_mono) simp_all
  then have "1 \<le> 6561 * (E * E)" by simp
  then have "1 / E \<le> 6561 * E" using E0 by (simp add: field_simps)
  moreover have "cosh t = (E + 1 / E) / 2" by (simp add: cosh_def E_def exp_minus inverse_eq_divide)
  ultimately show ?thesis unfolding E_def[symmetric] by simp
qed

lemma M_PI_bounds: "3 < M_PI" "M_PI < 16 / 5"
  by (simp_all add: M_PI_def)

lemma abs_ln_le:
  assumes "\<bar>x::real\<bar> \<le> 1 / 2" shows "\<bar>ln (1 + x)\<bar> \<le> 2 * \<bar>x\<bar>"
proof -
  have "\<bar>ln (1 + x) - x\<bar> \<le> 2 * x\<^sup>2" by (rule abs_ln_one_plus_x_minus_x_bound[OF assms])
  moreover have "2 * x\<^sup>2 \<le> \<bar>x\<bar>"
  proof -
    have "\<bar>x\<bar> * \<bar>x\<bar> \<le> 1 / 2 * \<bar>x\<bar>" using assms by (intro mult_right_mono) simp_all
    then show ?thesis by (simp add: power2_eq_square)
  qed
  ultimately show ?thesis by linarith
qed

text \<open>
  The row computed by \<^verbatim>\<open>latlon2tile\<close> from a value \<open>lat_rad = arctan (sinh t)\<close> with
  \<open>t\<close> between \<open>-4\<close> and \<open>4\<close>: the cosine is not zero, the argument of the logarithm is
  positive, and the double that is converted is within \<open>8759 * n * u\<close> of
  \<open>n * (1 - t / M_PI) / 2\<close>.
\<close>

lemma y_core:
  fixes n :: real
  assumes acc: "accurate u P" and u: "u \<le> 1 / 2 ^ 40"
    and t: "\<bar>t\<bar> \<le> 4" and n: "1 \<le> n" "n \<le> 2 ^ 62"
  defines "r \<equiv> arctan (sinh t)"
  defines "c \<equiv> c_cos P r"
  defines "s \<equiv> fadd P (c_tan P r) (fdiv P 1 c)"
  defines "v \<equiv> fdiv P (fmul P n (fsub P 1 (fdiv P (c_log P s) M_PI))) 2"
  shows "c \<noteq> 0 \<and> 0 < s \<and> \<bar>v - n * (1 - t / M_PI) / 2\<bar> \<le> 8759 * (n * u)"
proof -
  define C where "C = cosh t"
  define S where "S = sinh t"
  define E where "E = exp t"
  define uC where "uC = u * C"
  have u0: "0 \<le> u" by (rule accurate_nonneg[OF acc])
  have u1: "u \<le> 1 / 1000000000000" using u by simp
  have C1: "1 \<le> C" unfolding C_def by (rule cosh_real_ge_1)
  have C81: "C \<le> 81" unfolding C_def by (rule cosh_le_81[OF t])
  have SC: "\<bar>S\<bar> \<le> C" unfolding S_def C_def by (rule abs_sinh_le_cosh)
  have E0: "0 < E" unfolding E_def by simp
  have ESC: "E = S + C" unfolding E_def S_def C_def by (simp add: sinh_plus_cosh)
  have CE: "C \<le> 3281 * E" unfolding C_def E_def by (rule cosh_le_exp[OF t])
  have uC0: "0 \<le> uC" unfolding uC_def using u0 C1 by simp
  have uC1: "uC \<le> C / 1000000000000"
  proof -
    have "u * C \<le> 1 / 1000000000000 * C" using u1 C1 by (intro mult_right_mono) simp_all
    then show ?thesis by (simp add: uC_def)
  qed
  have tanr: "tan r = S" unfolding r_def S_def by (rule tan_arctan)
  have cosr: "cos r = 1 / C" unfolding r_def C_def by (simp add: cos_arctan cosh_sqrt)
  \<comment> \<open>tan\<close>
  define m3 where "m3 = c_tan P r"
  have m3: "\<bar>m3 - S\<bar> \<le> uC" unfolding m3_def uC_def tanr[symmetric]
    using SC C1 C81 by (intro tan_err[OF acc]) (simp_all add: tanr)
  \<comment> \<open>cos\<close>
  have c: "\<bar>c - 1 / C\<bar> \<le> u * (1 / C)" unfolding c_def cosr[symmetric]
    using C1 C81 by (intro cos_err[OF acc]) (simp_all add: cosr field_simps)
  have cC: "\<bar>c * C - 1\<bar> \<le> u"
  proof -
    have "\<bar>c * C - 1\<bar> = \<bar>c - 1 / C\<bar> * C" using C1 by (simp add: abs_mult[symmetric] field_simps)
    also have "\<dots> \<le> u * (1 / C) * C" using c C1 by (intro mult_right_mono) simp_all
    also have "\<dots> = u" using C1 by simp
    finally show ?thesis .
  qed
  have cpos: "1 / (2 * C) \<le> c"
  proof -
    have "1 / 2 \<le> c * C" using cC u1 by linarith
    then show ?thesis using C1 by (simp add: field_simps)
  qed
  then have c0: "0 < c" using C1 by (smt (verit) divide_pos_pos)
  \<comment> \<open>1 / cos\<close>
  define d where "d = 1 / c"
  have d: "\<bar>d - C\<bar> \<le> 2 * uC"
  proof -
    have "\<bar>d - C\<bar> = \<bar>c * C - 1\<bar> / c" using c0 by (simp add: d_def abs_mult[symmetric] field_simps abs_minus_commute)
    also have "\<dots> \<le> u / c" using cC c0 by (simp add: divide_right_mono)
    also have "\<dots> \<le> u / (1 / (2 * C))" using cpos u0 C1 c0 by (intro divide_left_mono) simp_all
    also have "\<dots> = 2 * uC" by (simp add: uC_def)
    finally show ?thesis .
  qed
  define m5 where "m5 = fdiv P 1 c"
  have "\<bar>rnd P d - d\<bar> \<le> u * (2 * C)"
    using d uC1 C1 C81 by (intro rnd_err[OF acc]) simp_all
  then have m5: "\<bar>m5 - C\<bar> \<le> 4 * uC" using d by (simp add: m5_def fdiv_def d_def uC_def)
  \<comment> \<open>sum\<close>
  define sg where "sg = m3 + m5"
  have sg: "\<bar>sg - E\<bar> \<le> 5 * uC" using m3 m5 unfolding sg_def ESC by linarith
  have "\<bar>rnd P sg - sg\<bar> \<le> u * (3 * C)"
    using sg uC1 C1 C81 SC unfolding ESC by (intro rnd_err[OF acc]) simp_all
  moreover have s_eq: "s = rnd P sg" by (simp add: s_def fadd_def sg_def m3_def m5_def)
  ultimately have sE: "\<bar>s - E\<bar> \<le> 8 * uC" using sg by (simp add: uC_def)
  have uCE: "uC \<le> 3281 * (u * E)"
  proof -
    have "u * C \<le> u * (3281 * E)" using CE u0 by (intro mult_left_mono)
    then show ?thesis by (simp add: uC_def)
  qed
  define x where "x = s / E - 1"
  have xb: "\<bar>x\<bar> \<le> 26248 * u"
  proof -
    have "\<bar>x\<bar> = \<bar>s - E\<bar> / E" using E0 by (simp add: x_def abs_mult[symmetric] field_simps)
    also have "\<dots> \<le> (26248 * (u * E)) / E" using sE uCE E0 by (intro divide_right_mono) linarith+
    also have "\<dots> = 26248 * u" using E0 by simp
    finally show ?thesis .
  qed
  have xh: "\<bar>x\<bar> \<le> 1 / 2" using xb u1 by linarith
  have s1: "s = E * (1 + x)" using E0 by (simp add: x_def field_simps)
  have s0: "0 < s" unfolding s1 using E0 xh by (intro mult_pos_pos) linarith+
  have "ln s = ln E + ln (1 + x)" unfolding s1 using E0 xh by (intro ln_mult_pos) linarith+
  then have lns: "ln s = t + ln (1 + x)" by (simp add: E_def)
  have lx: "\<bar>ln (1 + x)\<bar> \<le> 52496 * u" using abs_ln_le[OF xh] xb by linarith
  have lnst: "\<bar>ln s - t\<bar> \<le> 52496 * u" using lx lns by simp
  \<comment> \<open>log\<close>
  define m7 where "m7 = c_log P s"
  have "\<bar>m7 - ln s\<bar> \<le> u * 5" unfolding m7_def
    using lnst t u1 by (intro log_err[OF acc s0]) (linarith, simp_all)
  then have m7: "\<bar>m7 - t\<bar> \<le> 52501 * u" using lnst by linarith
  \<comment> \<open>division by M_PI\<close>
  define q where "q = m7 / M_PI"
  have M3: "3 < M_PI" by (rule M_PI_bounds)
  have q: "\<bar>q - t / M_PI\<bar> \<le> 17501 * u"
  proof -
    have "\<bar>q - t / M_PI\<bar> = \<bar>m7 - t\<bar> / M_PI" using M3 by (simp add: q_def diff_divide_distrib[symmetric])
    also have "\<dots> \<le> (52501 * u) / M_PI" using m7 M3 by (intro divide_right_mono) simp_all
    also have "\<dots> \<le> (52501 * u) / 3" using M3 u0 by (intro divide_left_mono) simp_all
    finally show ?thesis using u0 by linarith
  qed
  have tM: "\<bar>t / M_PI\<bar> \<le> 4 / 3"
  proof -
    have "\<bar>t / M_PI\<bar> = \<bar>t\<bar> / M_PI" using M3 by simp
    also have "\<dots> \<le> 4 / M_PI" using t M3 by (intro divide_right_mono) simp_all
    also have "\<dots> \<le> 4 / 3" using M3 by (intro divide_left_mono) simp_all
    finally show ?thesis .
  qed
  define m8 where "m8 = fdiv P m7 M_PI"
  have "\<bar>rnd P q - q\<bar> \<le> u * 2"
    using q tM u1 by (intro rnd_err[OF acc]) (linarith, simp_all)
  then have m8: "\<bar>m8 - t / M_PI\<bar> \<le> 17503 * u" using q by (simp add: m8_def fdiv_def q_def)
  \<comment> \<open>1 - ...\<close>
  define m9 where "m9 = fsub P 1 m8"
  have "\<bar>rnd P (1 - m8) - (1 - m8)\<bar> \<le> u * 3"
    using m8 tM u1 by (intro rnd_err[OF acc]) (linarith, simp_all)
  then have m9: "\<bar>m9 - (1 - t / M_PI)\<bar> \<le> 17506 * u" using m8 by (simp add: m9_def fsub_def)
  have m9b: "\<bar>m9\<bar> \<le> 4" using m9 tM u1 by linarith
  \<comment> \<open>n * ...\<close>
  define nu where "nu = n * u"
  have nu0: "0 \<le> nu" unfolding nu_def using n u0 by simp
  define m10 where "m10 = fmul P n m9"
  have nm9: "\<bar>n * m9\<bar> \<le> 4 * n" using m9b n by (simp add: abs_mult)
  have "\<bar>rnd P (n * m9) - n * m9\<bar> \<le> u * (4 * n)"
    using nm9 n by (intro rnd_err[OF acc]) simp_all
  then have r10: "\<bar>m10 - n * m9\<bar> \<le> 4 * nu" by (simp add: m10_def fmul_def nu_def mult_ac)
  have "\<bar>n * m9 - n * (1 - t / M_PI)\<bar> = n * \<bar>m9 - (1 - t / M_PI)\<bar>"
    using n by (simp add: abs_mult right_diff_distrib[symmetric])
  also have "\<dots> \<le> n * (17506 * u)" using m9 n by (intro mult_left_mono) simp_all
  also have "\<dots> = 17506 * nu" by (simp add: nu_def mult_ac)
  finally have m10: "\<bar>m10 - n * (1 - t / M_PI)\<bar> \<le> 17510 * nu"
    using r10 by linarith
  have nb: "\<bar>n * (1 - t / M_PI)\<bar> \<le> 3 * n"
  proof -
    have "\<bar>n * (1 - t / M_PI)\<bar> = n * \<bar>1 - t / M_PI\<bar>" using n by (simp add: abs_mult)
    also have "\<dots> \<le> n * 3" using tM n by (intro mult_left_mono) linarith+
    finally show ?thesis by simp
  qed
  have nun: "17510 * nu \<le> n"
  proof -
    have "n * u \<le> n * (1 / 1000000000000)" using u1 n by (intro mult_left_mono) simp_all
    then have "nu \<le> n / 1000000000000" by (simp add: nu_def)
    then show ?thesis using n by linarith
  qed
  have "\<bar>rnd P (m10 / 2) - m10 / 2\<bar> \<le> u * (4 * n)"
    using m10 nb nun n by (intro rnd_err[OF acc]) (linarith, simp_all)
  moreover have "v = rnd P (m10 / 2)"
    by (simp add: v_def fdiv_def m10_def m9_def m8_def m7_def)
  ultimately have "\<bar>v - m10 / 2\<bar> \<le> 4 * nu" by (simp add: nu_def mult_ac)
  moreover define Y where "Y = n * (1 - t / M_PI)"
  ultimately have "\<bar>v - Y / 2\<bar> \<le> 8759 * nu"
    using m10 by linarith
  then have "\<bar>v - n * (1 - t / M_PI) / 2\<bar> \<le> 8759 * nu" by (simp add: Y_def)
  with c0 s0 show ?thesis by (simp add: nu_def)
qed

text \<open>
  The Gudermannian function is monotone, does not expand distances, and on \<open>[-4, 4]\<close>
  does not shrink them by more than 81; every angle up to its value at \<open>T\<close> is its
  value at some \<open>t\<close> with \<open>\<bar>t\<bar> \<le> T\<close>.
\<close>

lemma deriv_gd: "((\<lambda>t. arctan (sinh t)) has_real_derivative 1 / cosh t) (at (t::real))"
proof -
  have c: "cosh t \<noteq> 0" using cosh_real_ge_1[of t] by linarith
  have "1 + (sinh t)\<^sup>2 = (cosh t)\<^sup>2" by (simp add: cosh_square_eq)
  then have e: "cosh t * inverse (1 + (sinh t)\<^sup>2) = 1 / cosh t"
    using c by (simp add: power2_eq_square field_simps)
  then have e': "inverse (1 + (sinh t)\<^sup>2) * cosh t = 1 / cosh t"
    by (simp add: mult.commute)
  show ?thesis
    by (auto intro!: derivative_eq_intros simp: e')
qed

lemma gd_diff:
  assumes "a < (b::real)"
  shows "\<exists>z. a < z \<and> z < b \<and> arctan (sinh b) - arctan (sinh a) = (b - a) * (1 / cosh z)"
  by (rule MVT2[OF assms]) (rule deriv_gd)

lemma gd_mono: assumes "a \<le> (b::real)" shows "arctan (sinh a) \<le> arctan (sinh b)"
  using assms by (simp add: arctan_le_iff)

lemma gd_lipschitz: "\<bar>arctan (sinh a) - arctan (sinh b)\<bar> \<le> \<bar>a - (b::real)\<bar>"
proof -
  have *: "arctan (sinh y) - arctan (sinh x) \<le> y - x" if "x < y" for x y :: real
  proof -
    from gd_diff[OF that] obtain z where
      z: "arctan (sinh y) - arctan (sinh x) = (y - x) * (1 / cosh z)" by blast
    have "1 / cosh z \<le> 1" using cosh_real_ge_1[of z] by simp
    then have "(y - x) * (1 / cosh z) \<le> (y - x) * 1" using that by (intro mult_left_mono) simp_all
    with z show ?thesis by simp
  qed
  consider "a < b" | "a = b" | "b < a" by linarith
  then show ?thesis
  proof cases
    case 1
    with *[OF 1] gd_mono[of a b] show ?thesis by simp
  next
    case 2
    then show ?thesis by simp
  next
    case 3
    with *[OF 3] gd_mono[of b a] show ?thesis by simp
  qed
qed

lemma arctan_lipschitz: "\<bar>arctan a - arctan b\<bar> \<le> \<bar>a - (b::real)\<bar>"
proof -
  have *: "arctan y - arctan x \<le> y - x" if "x < y" for x y :: real
  proof -
    from MVT2[OF that, of arctan "\<lambda>x. inverse (1 + x\<^sup>2)"] DERIV_arctan obtain z where
      z: "arctan y - arctan x = (y - x) * inverse (1 + z\<^sup>2)" by blast
    have "inverse (1 + z\<^sup>2) \<le> 1" by (simp add: inverse_le_1_iff)
    then have "(y - x) * inverse (1 + z\<^sup>2) \<le> (y - x) * 1" using that by (intro mult_left_mono) simp_all
    with z show ?thesis by simp
  qed
  consider "a < b" | "a = b" | "b < a" by linarith
  then show ?thesis
  proof cases
    case 1
    with *[OF 1] arctan_monotone[OF 1] show ?thesis by simp
  next
    case 2
    then show ?thesis by simp
  next
    case 3
    with *[OF 3] arctan_monotone[OF 3] show ?thesis by simp
  qed
qed

lemma scale81: "d / 81 \<le> (e::real) \<Longrightarrow> d \<le> 81 * e"
  by linarith

lemma gd_expand:
  assumes "\<bar>a\<bar> \<le> 4" "\<bar>b\<bar> \<le> (4::real)"
  shows "\<bar>a - b\<bar> \<le> 81 * \<bar>arctan (sinh a) - arctan (sinh b)\<bar>"
proof -
  have *: "y - x \<le> 81 * (arctan (sinh y) - arctan (sinh x))"
    if "x < y" "\<bar>x\<bar> \<le> 4" "\<bar>y\<bar> \<le> 4" for x y :: real
  proof -
    from gd_diff[OF that(1)] obtain z where z: "x < z" "z < y"
      "arctan (sinh y) - arctan (sinh x) = (y - x) * (1 / cosh z)" by blast
    have "\<bar>z\<bar> \<le> 4" using z(1,2) that(2,3) by linarith
    then have "cosh z \<le> 81" by (rule cosh_le_81)
    moreover have "0 < cosh z" using cosh_real_ge_1[of z] by linarith
    ultimately have "1 / 81 \<le> 1 / cosh z" by (simp add: field_simps)
    then have "(y - x) * (1 / 81) \<le> (y - x) * (1 / cosh z)"
      using that(1) by (intro mult_left_mono) simp_all
    then have "(y - x) * (1 / 81) \<le> arctan (sinh y) - arctan (sinh x)"
      unfolding z(3) .
    then have "(y - x) / 81 \<le> arctan (sinh y) - arctan (sinh x)" by simp
    then show ?thesis by (rule scale81)
  qed
  consider "a < b" | "a = b" | "b < a" by linarith
  then show ?thesis
  proof cases
    case 1
    with *[OF 1 assms] gd_mono[of a b] show ?thesis by simp
  next
    case 2
    then show ?thesis by simp
  next
    case 3
    with *[OF 3 assms(2) assms(1)] gd_mono[of b a] show ?thesis by simp
  qed
qed

lemma gd_odd: "arctan (sinh (- t)) = - arctan (sinh (t::real))"
  by (simp add: arctan_minus)

lemma gd_gap: "arctan (sinh (7 / 2)) + 1 / 162 \<le> arctan (sinh (4::real))"
proof -
  from gd_diff[of "7 / 2" 4] obtain z :: real where z: "7 / 2 < z" "z < 4"
    "arctan (sinh 4) - arctan (sinh (7 / 2)) = (4 - 7 / 2) * (1 / cosh z)" by auto
  have "\<bar>z\<bar> \<le> 4" using z(1,2) by linarith
  then have "cosh z \<le> 81" by (rule cosh_le_81)
  moreover have "0 < cosh z" using cosh_real_ge_1[of z] by linarith
  ultimately have "1 / 81 \<le> 1 / cosh z" by (simp add: field_simps)
  then have "(4 - 7 / 2) * (1 / 81) \<le> (4 - 7 / 2) * (1 / cosh z)"
    by (intro mult_left_mono) simp_all
  then have "(4 - 7 / 2) * (1 / 81) \<le> arctan (sinh 4) - arctan (sinh (7 / 2))"
    unfolding z(3) .
  then show ?thesis by simp
qed

lemma gd_inverse_le:
  assumes "\<bar>r\<bar> \<le> arctan (sinh T)"
  shows "\<exists>t. r = arctan (sinh t) \<and> \<bar>t\<bar> \<le> T"
proof -
  define R where "R = arctan (sinh T)"
  have R: "R < pi / 2" "- (pi / 2) < - R" unfolding R_def using arctan_ubound[of "sinh T"] by simp_all
  have r: "- R \<le> r" "r \<le> R" using assms unfolding R_def by linarith+
  have c: "0 < cos r" using r R by (intro cos_gt_zero_pi) linarith+
  define g where "g x = tan x + 1 / cos x" for x :: real
  have gpos: "0 < g r" unfolding g_def by (rule sec_tan_pos[OF c])
  define t where "t = ln (g r)"
  have "sinh t = tan r" unfolding t_def g_def by (rule sinh_ln_sec_tan[OF c])
  then have "arctan (sinh t) = arctan (tan r)" by simp
  also have "\<dots> = r" using r R by (intro arctan_tan) linarith+
  finally have 1: "r = arctan (sinh t)" by simp
  have "g r \<le> g R" unfolding g_def using r R by (intro sec_tan_mono) linarith+
  also have "g R = exp T" unfolding g_def R_def by (rule sec_tan_arctan_sinh)
  finally have "t \<le> T" unfolding t_def using gpos by (metis ln_exp ln_le_cancel_iff exp_gt_zero)
  have "g (- R) \<le> g r" unfolding g_def using r R by (intro sec_tan_mono) linarith+
  moreover have "g (- R) = exp (- T)" unfolding g_def R_def gd_odd[symmetric]
    by (rule sec_tan_arctan_sinh)
  ultimately have "exp (- T) \<le> g r" by simp
  then have "- T \<le> t" unfolding t_def using gpos by (metis ln_exp ln_le_cancel_iff exp_gt_zero)
  with \<open>t \<le> T\<close> 1 show ?thesis by (intro exI[of _ t]) simp
qed

lemma gd_inverse_near:
  assumes t: "\<bar>t\<bar> \<le> 7 / 2" and d: "\<bar>r' - arctan (sinh t)\<bar> \<le> \<delta>" "\<delta> \<le> 1 / 162"
  shows "\<exists>t'. r' = arctan (sinh t') \<and> \<bar>t'\<bar> \<le> 4 \<and> \<bar>t' - t\<bar> \<le> 81 * \<delta>"
proof -
  have "arctan (sinh t) \<le> arctan (sinh (7 / 2))" using t by (intro gd_mono) linarith
  moreover have "arctan (sinh (- (7 / 2))) \<le> arctan (sinh t)" using t by (intro gd_mono) linarith
  ultimately have "\<bar>arctan (sinh t)\<bar> \<le> arctan (sinh (7 / 2))"
    unfolding gd_odd by linarith
  with d gd_gap have "\<bar>r'\<bar> \<le> arctan (sinh 4)" by linarith
  from gd_inverse_le[OF this] obtain t' where t': "r' = arctan (sinh t')" "\<bar>t'\<bar> \<le> 4" by blast
  have "\<bar>t' - t\<bar> \<le> 81 * \<bar>arctan (sinh t') - arctan (sinh t)\<bar>"
    using t' t by (intro gd_expand) linarith+
  also have "\<dots> \<le> 81 * \<delta>" using d(1) unfolding t'(1) by simp
  finally show ?thesis using t' by blast
qed

text \<open>The row computed by \<^verbatim>\<open>latlon2tile\<close> from a latitude in degrees.\<close>

lemma abs_arctan_le_2: "\<bar>arctan x\<bar> \<le> 2"
  using arctan_bounded[of x] pi_less_4 by linarith

lemma lat_rad_err:
  assumes acc: "accurate u P" and u: "u \<le> 1 / 2 ^ 40" and b: "\<bar>lat * M_PI\<bar> \<le> 432"
  shows "\<bar>fdiv P (fmul P lat M_PI) 180 - lat * M_PI / 180\<bar> \<le> 6 * u"
proof -
  have u0: "0 \<le> u" by (rule accurate_nonneg[OF acc])
  have u1: "u \<le> 1 / 1000000000000" using u by simp
  define e where "e = lat * M_PI"
  define b1 where "b1 = rnd P e"
  have b1: "\<bar>b1 - e\<bar> \<le> u * 432" unfolding b1_def
    using b by (intro rnd_err[OF acc]) (simp_all add: e_def)
  then have "\<bar>b1 / 180\<bar> \<le> 3" using b u1 unfolding e_def[symmetric] by simp
  then have "\<bar>rnd P (b1 / 180) - b1 / 180\<bar> \<le> u * 3"
    by (intro rnd_err[OF acc]) simp_all
  then have "\<bar>rnd P (b1 / 180) - e / 180\<bar> \<le> 6 * u" using b1 by linarith
  then show ?thesis by (simp add: fdiv_def fmul_def b1_def e_def)
qed

lemma latlon2tile_y_err:
  fixes n :: real
  assumes acc: "accurate u P" and u: "u \<le> 1 / 2 ^ 40"
    and lat: "lat * M_PI / 180 = arctan (sinh t)" and t: "\<bar>t\<bar> \<le> 7 / 2"
    and n: "1 \<le> n" "n \<le> 2 ^ 62"
  defines "lat_rad \<equiv> fdiv P (fmul P lat M_PI) 180"
  defines "c \<equiv> c_cos P lat_rad"
  defines "s \<equiv> fadd P (c_tan P lat_rad) (fdiv P 1 c)"
  defines "v \<equiv> fdiv P (fmul P n (fsub P 1 (fdiv P (c_log P s) M_PI))) 2"
  shows "c \<noteq> 0 \<and> 0 < s \<and> \<bar>v - n * (1 - t / M_PI) / 2\<bar> \<le> 8840 * (n * u)"
proof -
  have u0: "0 \<le> u" by (rule accurate_nonneg[OF acc])
  have u1: "u \<le> 1 / 1000000000000" using u by simp
  have M3: "3 < M_PI" by (rule M_PI_bounds)
  have "lat * M_PI = 180 * arctan (sinh t)" using lat by simp
  then have "\<bar>lat * M_PI\<bar> \<le> 432" using abs_arctan_le_2[of "sinh t"] by simp
  from lat_rad_err[OF acc u this]
  have "\<bar>lat_rad - arctan (sinh t)\<bar> \<le> 6 * u" unfolding lat_rad_def lat .
  moreover have "6 * u \<le> 1 / 162" using u1 by simp
  ultimately obtain t' where t': "lat_rad = arctan (sinh t')" "\<bar>t'\<bar> \<le> 4" "\<bar>t' - t\<bar> \<le> 81 * (6 * u)"
    using gd_inverse_near[OF t] by blast
  from y_core[OF acc u t'(2) n, folded t'(1), folded c_def, folded s_def, folded v_def]
  have c: "c \<noteq> 0" and s: "0 < s" and v: "\<bar>v - n * (1 - t' / M_PI) / 2\<bar> \<le> 8759 * (n * u)"
    by simp_all
  define nu where "nu = n * u"
  have "n * (1 - t' / M_PI) / 2 - n * (1 - t / M_PI) / 2 = n * ((t - t') / M_PI) / 2"
    using M3 by (simp add: field_simps)
  then have "\<bar>n * (1 - t' / M_PI) / 2 - n * (1 - t / M_PI) / 2\<bar> = n * (\<bar>t' - t\<bar> / M_PI) / 2"
    using n M3 by (simp add: abs_mult abs_minus_commute)
  also have "\<dots> \<le> n * ((486 * u) / 3) / 2"
  proof -
    have "\<bar>t' - t\<bar> / M_PI \<le> (486 * u) / M_PI" using t'(3) M3 by (intro divide_right_mono) simp_all
    also have "\<dots> \<le> (486 * u) / 3" using M3 u0 by (intro divide_left_mono) simp_all
    finally show ?thesis using n by (intro divide_right_mono mult_left_mono) simp_all
  qed
  also have "\<dots> = 81 * nu" by (simp add: nu_def)
  finally have d: "\<bar>n * (1 - t' / M_PI) / 2 - n * (1 - t / M_PI) / 2\<bar> \<le> 81 * nu" .
  define Y' where "Y' = n * (1 - t' / M_PI) / 2"
  define Y where "Y = n * (1 - t / M_PI) / 2"
  have "\<bar>v - Y\<bar> \<le> 8840 * nu" using v d unfolding Y'_def[symmetric] Y_def[symmetric] nu_def[symmetric]
    by linarith
  with c s show ?thesis by (simp add: Y_def nu_def)
qed

text \<open>Conversions that are in range, and what \<^verbatim>\<open>latlon2tile\<close> stores.\<close>

lemma unat_word_of_int_32:
  assumes "0 \<le> k" "k < 2 ^ 32" shows "unat (word_of_int k :: 32 word) = nat k"
  using assms by (simp add: unat_eq_nat_uint uint_word_of_int take_bit_int_eq_self)

lemma double_to_uint_Some:
  assumes "- 1 < v" "v < 2 ^ 32"
  shows "double_to_uint P (Some v) = word_of_int (trunc v)"
    and "int (unat (double_to_uint P (Some v))) = trunc v"
proof -
  show 1: "double_to_uint P (Some v) = word_of_int (trunc v)"
    using assms by (simp add: double_to_uint_def)
  from trunc_range[OF assms] show "int (unat (double_to_uint P (Some v))) = trunc v"
    unfolding 1 by (simp add: unat_word_of_int_32)
qed

lemma trunc_near:
  assumes "\<bar>v - real_of_int k\<bar> < 1" "0 \<le> k"
  shows "k - 1 \<le> trunc v \<and> trunc v \<le> k"
proof (cases "0 \<le> v")
  case True
  then have "trunc v = \<lfloor>v\<rfloor>" by (simp add: trunc_def)
  moreover have "v < real_of_int k + 1" using assms(1) by linarith
  then have "\<lfloor>v\<rfloor> \<le> k" by (simp add: floor_le_iff)
  moreover have "real_of_int (k - 1) \<le> v" using assms(1) by simp
  then have "k - 1 \<le> \<lfloor>v\<rfloor>" by (simp only: le_floor_iff)
  ultimately show ?thesis by simp
next
  case False
  have "- 1 < v" using assms by linarith
  then have "\<lceil>v\<rceil> = 0" using False by (simp add: ceiling_eq_iff)
  then have t: "trunc v = 0" using False by (simp add: trunc_def)
  have "real_of_int k < 1" using assms(1) False by linarith
  then have "k = 0" using assms(2) by simp
  with t show ?thesis by simp
qed


lemma latlon2tile_y:
  assumes "latlon2tile P lat lon z = Inr (x, y)" "shl_1LL z = Inr n"
  shows "y = double_to_uint P
          (if c_cos P (fdiv P (fmul P lat M_PI) 180) = 0
              \<or> fadd P (c_tan P (fdiv P (fmul P lat M_PI) 180))
                   (fdiv P 1 (c_cos P (fdiv P (fmul P lat M_PI) 180))) \<le> 0
           then None
           else Some (fdiv P (fmul P (real_of_int n) (fsub P 1 (fdiv P (c_log P
                  (fadd P (c_tan P (fdiv P (fmul P lat M_PI) 180))
                   (fdiv P 1 (c_cos P (fdiv P (fmul P lat M_PI) 180))))) M_PI))) 2))"
  using assms by (simp add: latlon2tile_def Let_def and_then_def)

lemma latlon2tile_x:
  assumes "latlon2tile P lat lon z = Inr (x, y)" "shl_1LL z = Inr n"
  shows "x = double_to_uint P (Some (fmul P (real_of_int n) (fdiv P (fadd P lon 180) 360)))"
  using assms by (simp add: latlon2tile_def Let_def and_then_def)

lemma latlon2tile_Inr:
  assumes "0 \<le> z" "z < 63" shows "\<exists>x y. latlon2tile P lat lon z = Inr (x, y)"
  using assms by (simp add: latlon2tile_def Let_def and_then_def shl_1LL_def)




text \<open>
  \<^verbatim>\<open>tile2latlon\<close>: the latitude it returns for a row \<open>y\<close>, read back in radians, and the
  column that \<^verbatim>\<open>latlon2tile\<close> computes from the longitude it returns for a column \<open>x\<close>.
\<close>

lemma tile2latlon_lat_err:
  fixes n y :: real
  assumes acc: "accurate u P" and u: "u \<le> 1 / 2 ^ 40"
    and n: "1 \<le> n" "n \<le> 2 ^ 62" and y: "0 \<le> y" "y \<le> n"
  defines "t \<equiv> M_PI * (1 - 2 * y / n)"
  defines "lat \<equiv> fdiv P (fmul P (c_atan P (c_sinh P (fmul P M_PI
                      (fsub P 1 (fdiv P (fmul P 2 y) n))))) 180) M_PI"
  shows "\<exists>t'. lat * M_PI / 180 = arctan (sinh t') \<and> \<bar>t'\<bar> \<le> 7 / 2 \<and> \<bar>t' - t\<bar> \<le> 9315 * u"
proof -
  have u0: "0 \<le> u" by (rule accurate_nonneg[OF acc])
  have u1: "u \<le> 1 / 1000000000000" using u by simp
  have M: "3 < M_PI" "M_PI < 16 / 5" by (rule M_PI_bounds)+
  define w where "w = 1 - 2 * y / n"
  have yn: "0 \<le> y / n" "y / n \<le> 1" using y n by simp_all
  have w: "\<bar>w\<bar> \<le> 1" unfolding w_def using yn by simp
  have tw: "t = M_PI * w" by (simp add: t_def w_def)
  have tb: "\<bar>t\<bar> \<le> 16 / 5"
  proof -
    have "\<bar>t\<bar> = M_PI * \<bar>w\<bar>" using M by (simp add: tw abs_mult)
    also have "\<dots> \<le> M_PI * 1" using w M by (intro mult_left_mono) simp_all
    finally show ?thesis using M by simp
  qed
  \<comment> \<open>2.0 * y\<close>
  define a1 where "a1 = fmul P 2 y"
  have "\<bar>rnd P (2 * y) - 2 * y\<bar> \<le> u * (2 * n)"
    using y n by (intro rnd_err[OF acc]) simp_all
  then have a1: "\<bar>a1 - 2 * y\<bar> \<le> u * (2 * n)" by (simp add: a1_def fmul_def)
  \<comment> \<open>/ n\<close>
  define q1 where "q1 = a1 / n"
  have q1: "\<bar>q1 - 2 * (y / n)\<bar> \<le> 2 * u"
  proof -
    have "\<bar>q1 - 2 * (y / n)\<bar> = \<bar>a1 - 2 * y\<bar> / n"
      using n by (simp add: q1_def diff_divide_distrib[symmetric])
    also have "\<dots> \<le> (u * (2 * n)) / n" using a1 n by (intro divide_right_mono) simp_all
    also have "\<dots> = 2 * u" using n by simp
    finally show ?thesis .
  qed
  define a2 where "a2 = fdiv P a1 n"
  have "\<bar>rnd P q1 - q1\<bar> \<le> u * 3"
    using q1 yn u1 by (intro rnd_err[OF acc]) (linarith, simp_all)
  then have a2: "\<bar>a2 - 2 * (y / n)\<bar> \<le> 5 * u" using q1 by (simp add: a2_def fdiv_def q1_def)
  \<comment> \<open>1 - ...\<close>
  define a3 where "a3 = fsub P 1 a2"
  have "\<bar>rnd P (1 - a2) - (1 - a2)\<bar> \<le> u * 2"
    using a2 yn u1 by (intro rnd_err[OF acc]) (linarith, simp_all)
  then have a3: "\<bar>a3 - w\<bar> \<le> 7 * u" using a2 by (simp add: a3_def fsub_def w_def)
  \<comment> \<open>M_PI * ...\<close>
  define a4 where "a4 = fmul P M_PI a3"
  define p where "p = M_PI * a3"
  have pw: "\<bar>p - t\<bar> \<le> 23 * u"
  proof -
    have "\<bar>p - t\<bar> = M_PI * \<bar>a3 - w\<bar>"
      using M by (simp add: p_def tw abs_mult right_diff_distrib[symmetric])
    also have "\<dots> \<le> 16 / 5 * (7 * u)" using a3 M u0 by (intro mult_mono) simp_all
    finally show ?thesis using u0 by linarith
  qed
  have "\<bar>rnd P p - p\<bar> \<le> u * 4"
    using pw tb u1 by (intro rnd_err[OF acc]) (linarith, simp_all)
  moreover have "a4 = rnd P p" by (simp add: a4_def fmul_def p_def)
  ultimately have a4: "\<bar>a4 - t\<bar> \<le> 27 * u" using pw by linarith
  have a4b: "\<bar>a4\<bar> \<le> 4" using a4 tb u1 by linarith
  \<comment> \<open>sinh\<close>
  define a5 where "a5 = c_sinh P a4"
  have "\<bar>sinh a4\<bar> \<le> 81" using abs_sinh_le_cosh[of a4] cosh_le_81[OF a4b] by linarith
  then have a5: "\<bar>a5 - sinh a4\<bar> \<le> u * 81" unfolding a5_def
    by (intro sinh_err[OF acc]) simp_all
  \<comment> \<open>atan\<close>
  define a6 where "a6 = c_atan P a5"
  have "\<bar>a6 - arctan a5\<bar> \<le> u * 2" unfolding a6_def
    using abs_arctan_le_2[of a5] by (intro atan_err[OF acc]) simp_all
  moreover have "\<bar>arctan a5 - arctan (sinh a4)\<bar> \<le> u * 81"
    using arctan_lipschitz[of a5 "sinh a4"] a5 by linarith
  moreover have "\<bar>arctan (sinh a4) - arctan (sinh t)\<bar> \<le> 27 * u"
    using gd_lipschitz[of a4 t] a4 by linarith
  ultimately have a6: "\<bar>a6 - arctan (sinh t)\<bar> \<le> 110 * u" by linarith
  have a6b: "\<bar>a6\<bar> \<le> 20 / 9" using a6 abs_arctan_le_2[of "sinh t"] u1 by linarith
  \<comment> \<open>* 180\<close>
  define a7 where "a7 = fmul P a6 180"
  have "\<bar>rnd P (a6 * 180) - a6 * 180\<bar> \<le> u * 400"
    using a6b by (intro rnd_err[OF acc]) simp_all
  then have a7: "\<bar>a7 - a6 * 180\<bar> \<le> 400 * u" by (simp add: a7_def fmul_def)
  have a7b: "\<bar>a7\<bar> \<le> 401" using a7 a6b u1 by linarith
  \<comment> \<open>/ M_PI\<close>
  define q8 where "q8 = a7 / M_PI"
  have q8b: "\<bar>q8\<bar> \<le> 134"
  proof -
    have "\<bar>q8\<bar> = \<bar>a7\<bar> / M_PI" using M by (simp add: q8_def)
    also have "\<dots> \<le> 401 / M_PI" using a7b M by (intro divide_right_mono) simp_all
    also have "\<dots> \<le> 401 / 3" using M by (intro divide_left_mono) simp_all
    finally show ?thesis by simp
  qed
  have "\<bar>rnd P q8 - q8\<bar> \<le> u * 134"
    using q8b by (intro rnd_err[OF acc]) simp_all
  moreover have lat_eq: "lat = rnd P q8"
    by (simp add: lat_def fdiv_def q8_def a7_def a6_def a5_def a4_def a3_def a2_def a1_def)
  ultimately have l8: "\<bar>lat - q8\<bar> \<le> 134 * u" by simp
  \<comment> \<open>back to radians, exactly\<close>
  define r where "r = lat * M_PI / 180"
  have "r - a6 = ((lat - q8) * M_PI + (a7 - a6 * 180)) / 180"
    using M by (simp add: r_def q8_def field_simps)
  moreover have "\<bar>(lat - q8) * M_PI\<bar> \<le> 134 * u * (16 / 5)"
  proof -
    have "\<bar>(lat - q8) * M_PI\<bar> = \<bar>lat - q8\<bar> * M_PI" using M by (simp add: abs_mult)
    also have "\<dots> \<le> 134 * u * (16 / 5)" using l8 M u0 by (intro mult_mono) simp_all
    finally show ?thesis .
  qed
  ultimately have "\<bar>r - a6\<bar> \<le> 5 * u" using a7 by simp
  then have "\<bar>r - arctan (sinh t)\<bar> \<le> 115 * u" using a6 by linarith
  moreover have "115 * u \<le> 1 / 162" using u1 by simp
  moreover have "\<bar>t\<bar> \<le> 7 / 2" using tb by simp
  ultimately obtain t' where t': "r = arctan (sinh t')" "\<bar>t' - t\<bar> \<le> 81 * (115 * u)"
    using gd_inverse_near by blast
  have "\<bar>t'\<bar> \<le> 7 / 2" using t'(2) tb u1 by linarith
  with t' show ?thesis unfolding r_def by (intro exI[of _ t']) simp
qed

lemma lon_roundtrip_err:
  fixes n x :: real
  assumes acc: "accurate u P" and u: "u \<le> 1 / 2 ^ 40"
    and n: "1 \<le> n" "n \<le> 2 ^ 62" and x: "0 \<le> x" "x \<le> n"
  defines "lon \<equiv> fsub P (fdiv P (fmul P 360 x) n) 180"
  shows "\<bar>fmul P n (fdiv P (fadd P lon 180) 360) - x\<bar> \<le> 9 * (n * u)"
proof -
  have u0: "0 \<le> u" by (rule accurate_nonneg[OF acc])
  have u1: "u \<le> 1 / 1000000000000" using u by simp
  define xn where "xn = x / n"
  have xn: "0 \<le> xn" "xn \<le> 1" using x n by (simp_all add: xn_def)
  define c1 where "c1 = fmul P 360 x"
  have "\<bar>rnd P (360 * x) - 360 * x\<bar> \<le> u * (360 * n)"
    using x n by (intro rnd_err[OF acc]) simp_all
  then have c1: "\<bar>c1 - 360 * x\<bar> \<le> u * (360 * n)" by (simp add: c1_def fmul_def)
  define q2 where "q2 = c1 / n"
  have q2: "\<bar>q2 - 360 * xn\<bar> \<le> 360 * u"
  proof -
    have "\<bar>q2 - 360 * xn\<bar> = \<bar>c1 - 360 * x\<bar> / n"
      using n by (simp add: q2_def xn_def diff_divide_distrib[symmetric])
    also have "\<dots> \<le> (u * (360 * n)) / n" using c1 n by (intro divide_right_mono) simp_all
    also have "\<dots> = 360 * u" using n by simp
    finally show ?thesis .
  qed
  define c2 where "c2 = fdiv P c1 n"
  have "\<bar>rnd P q2 - q2\<bar> \<le> u * 361"
    using q2 xn u1 by (intro rnd_err[OF acc]) (linarith, simp_all)
  then have c2: "\<bar>c2 - 360 * xn\<bar> \<le> 721 * u" using q2 by (simp add: c2_def fdiv_def q2_def)
  have "\<bar>rnd P (c2 - 180) - (c2 - 180)\<bar> \<le> u * 541"
    using c2 xn u1 by (intro rnd_err[OF acc]) (linarith, simp_all)
  moreover have "lon = rnd P (c2 - 180)" by (simp add: lon_def fsub_def c2_def c1_def)
  ultimately have lon: "\<bar>lon + 180 - 360 * xn\<bar> \<le> 1262 * u" using c2 by simp
  define d1 where "d1 = fadd P lon 180"
  have "\<bar>rnd P (lon + 180) - (lon + 180)\<bar> \<le> u * 361"
    using lon xn u1 by (intro rnd_err[OF acc]) (linarith, simp_all)
  then have d1: "\<bar>d1 - 360 * xn\<bar> \<le> 1623 * u" using lon by (simp add: d1_def fadd_def)
  define q4 where "q4 = d1 / 360"
  have q4: "\<bar>q4 - xn\<bar> \<le> 5 * u" using d1 by (simp add: q4_def)
  define d2 where "d2 = fdiv P d1 360"
  have "\<bar>rnd P q4 - q4\<bar> \<le> u * 2"
    using q4 xn u1 by (intro rnd_err[OF acc]) (linarith, simp_all)
  then have d2: "\<bar>d2 - xn\<bar> \<le> 7 * u" using q4 by (simp add: d2_def fdiv_def q4_def)
  have d2b: "\<bar>d2\<bar> \<le> 2" using d2 xn u1 by linarith
  define nu where "nu = n * u"
  have "\<bar>n * d2\<bar> \<le> 2 * n" using d2b n by (simp add: abs_mult)
  then have "\<bar>rnd P (n * d2) - n * d2\<bar> \<le> u * (2 * n)"
    using n by (intro rnd_err[OF acc]) simp_all
  then have r: "\<bar>fmul P n d2 - n * d2\<bar> \<le> 2 * nu" by (simp add: fmul_def nu_def mult_ac)
  have "n * d2 - x = n * (d2 - xn)" using n by (simp add: xn_def field_simps)
  then have "\<bar>n * d2 - x\<bar> = n * \<bar>d2 - xn\<bar>" using n by (simp add: abs_mult)
  also have "\<dots> \<le> n * (7 * u)" using d2 n by (intro mult_left_mono) simp_all
  also have "\<dots> = 7 * nu" by (simp add: nu_def)
  finally have "\<bar>fmul P n d2 - x\<bar> \<le> 9 * nu" using r by linarith
  then show ?thesis by (simp add: d2_def d1_def nu_def)
qed

lemma uint_near:
  assumes "\<bar>v - real (unat (w :: 32 word))\<bar> < 1"
  shows "unat (double_to_uint P (Some v)) \<le> unat w \<and> unat w \<le> unat (double_to_uint P (Some v)) + 1"
proof -
  have w: "real (unat w) \<le> 2 ^ 32 - 1"
  proof -
    have "unat w < 2 ^ 32" using unsigned_less[of w, where 'a = nat] by simp
    then have "unat w \<le> 2 ^ 32 - 1" by simp
    then have "real (unat w) \<le> real (2 ^ 32 - 1)" by (rule of_nat_mono)
    then show ?thesis by simp
  qed
  have v: "- 1 < v" "v < 2 ^ 32" using assms w by linarith+
  have "\<bar>v - real_of_int (int (unat w))\<bar> < 1" using assms by simp
  from trunc_near[OF this] have "int (unat w) - 1 \<le> trunc v \<and> trunc v \<le> int (unat w)" by simp
  then show ?thesis unfolding double_to_uint_Some(2)[OF v, of P, symmetric] by linarith
qed


lemma accurate_exact: "0 \<le> u \<Longrightarrow> accurate u exact"
  by (simp add: accurate_def close_to_def exact_def)



section \<open>Round trip between tiles and coordinates\<close>

text \<open>
  Claim C6 as stated fails.  \<^verbatim>\<open>latlon2tile\<close> stores integer tile indices, so going from a
  point to its tile and back does not return the point: at zoom 1 the point with
  latitude 0 and longitude 90 lies in tile \<open>(1, 1)\<close>, and that tile is mapped back to
  latitude 0 and longitude 0.  No operation on this path rounds (the doubles that occur
  are 0, 0.75, 1, 1.5, 2, 90, 180, 270 and 360), so the platform that computes exactly
  returns what the code returns.
\<close>

theorem point_roundtrip_counterexample:
  "latlon2tile exact 0 90 1 = Inr (1, 1) \<and> tile2latlon exact 1 1 1 = Inr (0, 0)"
  by (simp add: latlon2tile_def tile2latlon_def shl_1LL_def double_to_uint_def trunc_def
      and_then_def Let_def exact_def fadd_def fsub_def fmul_def fdiv_def)

text \<open>
  Claim C6, amended.  On a platform that is accurate to \<open>2 ^ - 50\<close>, for every zoom from 0
  to 32 and every tile \<open>(x, y)\<close> of that zoom, converting the tile to coordinates and the
  coordinates back to a tile returns a tile \<open>(x', y')\<close> within one unit of \<open>(x, y)\<close>: \<open>x'\<close>
  is \<open>x\<close> or \<open>x - 1\<close> and \<open>y'\<close> is \<open>y\<close> or \<open>y - 1\<close>.
\<close>

theorem tile_roundtrip:
  assumes acc: "accurate (1 / 2 ^ 50) P" and z: "0 \<le> z" "z \<le> 32"
    and x: "unat x < 2 ^ nat z" and y: "unat y < 2 ^ nat z"
  shows "\<exists>lat lon x' y'. tile2latlon P x y z = Inr (lat, lon)
            \<and> latlon2tile P lat lon z = Inr (x', y')
            \<and> unat x' \<le> unat x \<and> unat x \<le> unat x' + 1
            \<and> unat y' \<le> unat y \<and> unat y \<le> unat y' + 1"
proof -
  define u :: real where "u = 1 / 2 ^ 50"
  have acc': "accurate u P" using acc by (simp add: u_def)
  have u40: "u \<le> 1 / 2 ^ 40" by (simp add: u_def)
  have M: "3 < M_PI" by (rule M_PI_bounds)
  define n :: int where "n = 2 ^ nat z"
  define rn where "rn = real_of_int n"
  have sh: "shl_1LL z = Inr n" using z by (simp add: shl_1LL_def n_def)
  have rn: "1 \<le> rn" "rn \<le> 2 ^ 62" "rn \<le> 2 ^ 32"
  proof -
    have "nat z \<le> 32" using z by simp
    then have "(2::real) ^ nat z \<le> 2 ^ 32" by (intro power_increasing) simp_all
    then show "rn \<le> 2 ^ 32" by (simp add: rn_def n_def)
    then show "rn \<le> 2 ^ 62" by simp
    show "1 \<le> rn" by (simp add: rn_def n_def)
  qed
  define ru where "ru = rn * u"
  have rnu: "ru \<le> 1 / 262144"
  proof -
    have "rn * u \<le> 2 ^ 32 * u" using rn by (intro mult_right_mono) (simp_all add: u_def)
    then show ?thesis by (simp add: u_def ru_def)
  qed
  define X where "X = real (unat x)"
  define Y where "Y = real (unat y)"
  have X: "0 \<le> X" "X \<le> rn"
  proof -
    show "0 \<le> X" by (simp only: X_def of_nat_0_le_iff)
    have "real (unat x) \<le> real (2 ^ nat z)" using x by (intro of_nat_mono) simp
    then show "X \<le> rn" by (simp add: X_def rn_def n_def)
  qed
  have Y: "0 \<le> Y" "Y \<le> rn"
  proof -
    show "0 \<le> Y" by (simp only: Y_def of_nat_0_le_iff)
    have "real (unat y) \<le> real (2 ^ nat z)" using y by (intro of_nat_mono) simp
    then show "Y \<le> rn" by (simp add: Y_def rn_def n_def)
  qed
  define lon where "lon = fsub P (fdiv P (fmul P 360 X) rn) 180"
  define lat where "lat = fdiv P (fmul P (c_atan P (c_sinh P (fmul P M_PI
                      (fsub P 1 (fdiv P (fmul P 2 Y) rn))))) 180) M_PI"
  have t2l: "tile2latlon P x y z = Inr (lat, lon)"
    by (simp add: tile2latlon_def sh and_then_def Let_def lat_def lon_def X_def Y_def rn_def)
  obtain x' y' where l2t: "latlon2tile P lat lon z = Inr (x', y')"
    using latlon2tile_Inr[of z P lat lon] z by auto
  \<comment> \<open>column\<close>
  define vx where "vx = fmul P rn (fdiv P (fadd P lon 180) 360)"
  have "\<bar>vx - X\<bar> \<le> 9 * (rn * u)"
    unfolding vx_def lon_def by (rule lon_roundtrip_err[OF acc' u40 rn(1,2) X])
  then have "\<bar>vx - real (unat x)\<bar> < 1" using rnu unfolding X_def ru_def[symmetric] by linarith
  from uint_near[OF this, of P] latlon2tile_x[OF l2t sh, folded rn_def, folded vx_def]
  have cx: "unat x' \<le> unat x \<and> unat x \<le> unat x' + 1" by simp
  \<comment> \<open>row\<close>
  define t where "t = M_PI * (1 - 2 * Y / rn)"
  from tile2latlon_lat_err[OF acc' u40 rn(1,2) Y, folded lat_def, folded t_def]
  obtain t' where t': "lat * M_PI / 180 = arctan (sinh t')" "\<bar>t'\<bar> \<le> 7 / 2" "\<bar>t' - t\<bar> \<le> 9315 * u"
    by blast
  define lat_rad where "lat_rad = fdiv P (fmul P lat M_PI) 180"
  define c where "c = c_cos P lat_rad"
  define s where "s = fadd P (c_tan P lat_rad) (fdiv P 1 c)"
  define vy where "vy = fdiv P (fmul P rn (fsub P 1 (fdiv P (c_log P s) M_PI))) 2"
  from latlon2tile_y_err[OF acc' u40 t'(1,2) rn(1,2),
      folded lat_rad_def, folded c_def, folded s_def, folded vy_def]
  have c: "c \<noteq> 0" and s: "0 < s" and vy: "\<bar>vy - rn * (1 - t' / M_PI) / 2\<bar> \<le> 8840 * (rn * u)"
    by simp_all
  have Yt: "rn * (1 - t / M_PI) / 2 = Y" using M rn(1) by (simp add: t_def field_simps)
  have "rn * (1 - t' / M_PI) / 2 - rn * (1 - t / M_PI) / 2 = rn * ((t - t') / M_PI) / 2"
    using M by (simp add: field_simps)
  then have "\<bar>rn * (1 - t' / M_PI) / 2 - Y\<bar> = rn * (\<bar>t' - t\<bar> / M_PI) / 2"
    unfolding Yt using rn(1) M by (simp add: abs_mult abs_minus_commute)
  also have "\<dots> \<le> rn * ((9315 * u) / 3) / 2"
  proof -
    have "\<bar>t' - t\<bar> / M_PI \<le> (9315 * u) / M_PI" using t'(3) M by (intro divide_right_mono) simp_all
    also have "\<dots> \<le> (9315 * u) / 3" using M by (intro divide_left_mono) (simp_all add: u_def)
    finally show ?thesis using rn(1) by (intro divide_right_mono mult_left_mono) simp_all
  qed
  also have "\<dots> = 3105 / 2 * (rn * u)" by simp
  finally have d: "\<bar>rn * (1 - t' / M_PI) / 2 - Y\<bar> \<le> 3105 / 2 * (rn * u)" .
  define Y' where "Y' = rn * (1 - t' / M_PI) / 2"
  have "\<bar>vy - Y\<bar> < 1"
    using vy d rnu unfolding Y'_def[symmetric] ru_def[symmetric] by linarith
  then have "\<bar>vy - real (unat y)\<bar> < 1" by (simp add: Y_def)
  from uint_near[OF this, of P] latlon2tile_y[OF l2t sh, folded rn_def, folded lat_rad_def,
      folded c_def, folded s_def, folded vy_def] c s
  have cy: "unat y' \<le> unat y \<and> unat y \<le> unat y' + 1" by simp
  from t2l l2t cx cy show ?thesis by blast
qed

theorem tile_roundtrip_witness:
  "accurate (1 / 2 ^ 50) exact \<and> (0::int) \<le> 1 \<and> (1::int) \<le> 32
   \<and> unat (1 :: 32 word) < 2 ^ nat 1
   \<and> (\<exists>lat lon x' y'. tile2latlon exact 1 1 1 = Inr (lat, lon)
            \<and> latlon2tile exact lat lon 1 = Inr (x', y')
            \<and> unat x' \<le> unat (1 :: 32 word) \<and> unat (1 :: 32 word) \<le> unat x' + 1
            \<and> unat y' \<le> unat (1 :: 32 word) \<and> unat (1 :: 32 word) \<le> unat y' + 1)"
  using tile_roundtrip [of exact 1 1 1] by (simp add: accurate_exact)

section \<open>Bounding box\<close>

lemma resolve_corners_bbox: "resolve_corners P b = Inr c \<Longrightarrow> bbox c = b"
  by (auto simp: resolve_corners_def and_then_def split: sum.splits prod.splits)

lemma tile_range_geo: "tile_range zoom tilesize c = Inr p \<Longrightarrow> geo p = c"
  by (auto simp: tile_range_def and_then_def split: sum.splits prod.splits)

lemma resolve_Inr:
  assumes "resolve P a = Inr p"
  shows "\<exists>c. (if opt_centered a
              then resolve_centered P (normalize_box \<lparr>minlat = arg_minlat a, minlon = arg_minlon a,
                               maxlat = arg_maxlat a, maxlon = arg_maxlon a\<rparr>)
                     (arg_width a) (arg_height a) (arg_zoom a)
              else resolve_corners P (normalize_box \<lparr>minlat = arg_minlat a, minlon = arg_minlon a,
                               maxlat = arg_maxlat a, maxlon = arg_maxlon a\<rparr>)) = Inr c
           \<and> tile_range (arg_zoom a) (opt_tilesize a) c = Inr p"
  using assms
  by (auto simp: resolve_def Let_def and_then_def split: if_splits sum.splits)

text \<open>
  Claim C7.  After the two swaps the box has \<open>minlat \<le> maxlat\<close> and \<open>minlon \<le> maxlon\<close>,
  for any four input values; in corner mode that box is the resolved box of the run,
  on every platform.
\<close>

theorem corner_box_normalized:
  "minlat (normalize_box b) \<le> maxlat (normalize_box b)
   \<and> minlon (normalize_box b) \<le> maxlon (normalize_box b)
   \<and> (\<not> opt_centered a \<and> resolve P a = Inr p
        \<longrightarrow> bbox (geo p) = normalize_box \<lparr>minlat = arg_minlat a, minlon = arg_minlon a,
                                           maxlat = arg_maxlat a, maxlon = arg_maxlon a\<rparr>)"
proof (intro conjI impI)
  show "minlat (normalize_box b) \<le> maxlat (normalize_box b)"
    by (simp add: normalize_box_def Let_def)
  show "minlon (normalize_box b) \<le> maxlon (normalize_box b)"
    by (simp add: normalize_box_def Let_def)
next
  assume h: "\<not> opt_centered a \<and> resolve P a = Inr p"
  with resolve_Inr[of P a p] obtain c where
    "resolve_corners P (normalize_box \<lparr>minlat = arg_minlat a, minlon = arg_minlon a,
        maxlat = arg_maxlat a, maxlon = arg_maxlon a\<rparr>) = Inr c"
    "tile_range (arg_zoom a) (opt_tilesize a) c = Inr p"
    by auto
  then show "bbox (geo p) = normalize_box \<lparr>minlat = arg_minlat a, minlon = arg_minlon a,
        maxlat = arg_maxlat a, maxlon = arg_maxlon a\<rparr>"
    by (simp add: resolve_corners_bbox tile_range_geo)
qed

theorem corner_box_normalized_witness:
  "\<exists>p. resolve exact \<lparr>opt_elevation = False, opt_centered = False, opt_tilesize = 256,
       no_outfile = False, stdout_tty = True, arg_minlat = 45, arg_minlon = 10, arg_maxlat = 0,
       arg_maxlon = - 10, arg_width = 0, arg_height = - 10, arg_zoom = 10\<rparr> = Inr p
     \<and> bbox (geo p) = \<lparr>minlat = 0, minlon = - 10, maxlat = 45, maxlon = 10\<rparr>
     \<and> minlat (bbox (geo p)) \<le> maxlat (bbox (geo p)) \<and> minlon (bbox (geo p)) \<le> maxlon (bbox (geo p))"
proof -
  let ?b = "\<lparr>minlat = 45, minlon = 10, maxlat = 0, maxlon = - 10\<rparr>"
  let ?a = "\<lparr>opt_elevation = False, opt_centered = False, opt_tilesize = 256, no_outfile = False,
       stdout_tty = True, arg_minlat = 45, arg_minlon = 10, arg_maxlat = 0, arg_maxlon = - 10,
       arg_width = 0, arg_height = - 10, arg_zoom = 10\<rparr>"
  have n: "normalize_box ?b = \<lparr>minlat = 0, minlon = - 10, maxlat = 45, maxlon = 10\<rparr>"
    by (simp add: normalize_box_def Let_def)
  obtain xh yh where y: "latlon2tile exact 45 (- 10) 32 = Inr (xh, yh)"
    using latlon2tile_Inr[of 32 exact 45 "- 10"] by auto
  obtain xl yl where l: "latlon2tile exact 0 10 32 = Inr (xl, yl)"
    using latlon2tile_Inr[of 32 exact 0 10] by auto
  have "\<exists>p. resolve exact ?a = Inr p"
    apply (simp add: resolve_def n Let_def)
    apply (simp add: resolve_corners_def y l and_then_def)
    apply (simp add: tile_range_def tile_indices_def shr_uint_def and_then_def)
    done
  then obtain p where p: "resolve exact ?a = Inr p" ..
  from corner_box_normalized [of ?b ?a exact p] p show ?thesis
    by (simp add: n)
qed

section \<open>Tile range\<close>


text \<open>
  At zoom 0 the shift count of lines 388--391 is 32, the width of \<^verbatim>\<open>unsigned int\<close>: the
  tile range has no defined value.
\<close>

lemma tile_indices_zoom_0: "tile_indices 0 c = Inl Undefined"
  by (simp add: tile_indices_def shr_uint_def and_then_def)




section \<open>Centered mode\<close>

lemma resolve_centered_center:
  assumes "resolve_centered P b w h zoom = Inr c"
  shows "\<exists>cx cy. latlon2tile P (minlat b) (minlon b) 32 = Inr (cx, cy)
           \<and> x1 c = cx - word_of_int (w * 2 ^ nat (24 - zoom) div 2)
           \<and> x2 c = cx + word_of_int (w * 2 ^ nat (24 - zoom) div 2)
           \<and> y1 c = cy - word_of_int (h * 2 ^ nat (24 - zoom) div 2)
           \<and> y2 c = cy + word_of_int (h * 2 ^ nat (24 - zoom) div 2)"
  using assms
  by (auto simp: resolve_centered_def and_then_def shl_int_def Let_def split: sum.splits prod.splits if_splits)

text \<open>
  Claim C10.  In centered mode the first four arguments are the centre latitude, the
  centre longitude, the width and the height, and \<open>arg_maxlat\<close>, \<open>arg_maxlon\<close> are the
  width and height arguments read by \<^verbatim>\<open>atof\<close>.  The swaps run before the mode is looked
  at, so the point whose grid coordinate \<open>(cx, cy)\<close> becomes the centre of the corners
  is the swapped one: its latitude is the width argument whenever the centre latitude
  is greater than it, and its longitude is the height argument whenever the centre
  longitude is greater than it.  This holds on every platform.
\<close>

theorem centered_uses_swapped_center:
  assumes "opt_centered a" "resolve P a = Inr p"
  shows "\<exists>cx cy.
      latlon2tile P (if arg_minlat a > arg_maxlat a then arg_maxlat a else arg_minlat a)
                  (if arg_minlon a > arg_maxlon a then arg_maxlon a else arg_minlon a) 32 = Inr (cx, cy)
      \<and> x1 (geo p) = cx - word_of_int (arg_width a * 2 ^ nat (24 - arg_zoom a) div 2)
      \<and> x2 (geo p) = cx + word_of_int (arg_width a * 2 ^ nat (24 - arg_zoom a) div 2)
      \<and> y1 (geo p) = cy - word_of_int (arg_height a * 2 ^ nat (24 - arg_zoom a) div 2)
      \<and> y2 (geo p) = cy + word_of_int (arg_height a * 2 ^ nat (24 - arg_zoom a) div 2)"
proof -
  let ?b = "normalize_box \<lparr>minlat = arg_minlat a, minlon = arg_minlon a,
                               maxlat = arg_maxlat a, maxlon = arg_maxlon a\<rparr>"
  from assms obtain c where c: "resolve_centered P ?b (arg_width a) (arg_height a) (arg_zoom a) = Inr c"
    and p: "tile_range (arg_zoom a) (opt_tilesize a) c = Inr p"
    by (auto simp: resolve_def Let_def and_then_def split: if_splits sum.splits)
  have m: "minlat ?b = (if arg_minlat a > arg_maxlat a then arg_maxlat a else arg_minlat a)"
    "minlon ?b = (if arg_minlon a > arg_maxlon a then arg_maxlon a else arg_minlon a)"
    by (simp_all add: normalize_box_def Let_def)
  from resolve_centered_center[OF c] tile_range_geo[OF p] show ?thesis
    unfolding m by simp
qed

lemma latlon2tile_exact_equator:
  assumes "- 180 \<le> lon" "lon < 180"
  shows "latlon2tile exact 0 lon 32
     = Inr (word_of_int \<lfloor>4294967296 * ((lon + 180) / 360)\<rfloor>, 2147483648)"
proof -
  have "0 \<le> 4294967296 * ((lon + 180) / 360)" "4294967296 * ((lon + 180) / 360) < 4294967296"
    using assms by simp_all
  then show ?thesis
    by (simp add: latlon2tile_def shl_1LL_def double_to_uint_def trunc_def and_then_def Let_def
        exact_def fadd_def fsub_def fmul_def fdiv_def)
qed

theorem centered_uses_swapped_center_witness:
  "\<exists>p. resolve exact \<lparr>opt_elevation = False, opt_centered = True, opt_tilesize = 256,
       no_outfile = False, stdout_tty = False, arg_minlat = 0, arg_minlon = 100, arg_maxlat = 500,
       arg_maxlon = 50, arg_width = 500, arg_height = 50, arg_zoom = 10\<rparr> = Inr p
     \<and> latlon2tile exact 0 50 32 = Inr (2744006883, 2147483648)
     \<and> x1 (geo p) = 2744006883 - 4096000 \<and> x2 (geo p) = 2744006883 + 4096000
     \<and> y1 (geo p) = 2147483648 - 409600 \<and> y2 (geo p) = 2147483648 + 409600"
proof -
  let ?a = "\<lparr>opt_elevation = False, opt_centered = True, opt_tilesize = 256, no_outfile = False,
       stdout_tty = False, arg_minlat = 0, arg_minlon = 100, arg_maxlat = 500, arg_maxlon = 50,
       arg_width = 500, arg_height = 50, arg_zoom = 10\<rparr>"
  have l: "latlon2tile exact 0 50 32 = Inr (2744006883, 2147483648)"
    using latlon2tile_exact_equator[of 50] by simp
  obtain p where p: "resolve exact ?a = Inr p"
    by (simp add: resolve_def normalize_box_def resolve_centered_def l shl_int_def tile2latlon_def
        shl_1LL_def tile_range_def tile_indices_def shr_uint_def and_then_def Let_def)
  from centered_uses_swapped_center[of ?a exact p] p l show ?thesis
    by simp
qed

section \<open>Configuration errors\<close>

lemma resolve_centered_bad_size:
  assumes "w \<le> 0 \<or> h \<le> 0"
  shows "resolve_centered P b w h zoom = Inl (Exit_failure Width_height)"
  using assms
  by (simp add: resolve_centered_def latlon2tile_def shl_1LL_def and_then_def Let_def)

text \<open>
  Claim C8.  Whatever the rest of \<^verbatim>\<open>main\<close> would do with a plan, on every platform: a
  negative zoom ends the run with its message; in centered mode a width or height
  that is not positive ends the run with its message, unless the negative zoom or the
  missing output file is reported first (the two conversions of the centre that
  precede the check store some value and the run reaches the check); a raster of more
  than 100,000,000 pixels ends the run with its message.  In every case \<open>main\<close> is an
  \<open>Exit_failure\<close>: the rest of the function, which allocates the canvas and writes the
  output, is not run.
\<close>

theorem configuration_errors_abort:
  "(arg_zoom a < 0 \<longrightarrow> main P a rest = Inl (Exit_failure Zoom_negative))
   \<and> (opt_centered a \<and> (arg_width a \<le> 0 \<or> arg_height a \<le> 0) \<longrightarrow>
        main P a rest =
          (if arg_zoom a < 0 then Inl (Exit_failure Zoom_negative)
           else if no_outfile a \<and> stdout_tty a then Inl (Exit_failure No_output)
           else Inl (Exit_failure Width_height)))
   \<and> (resolve P a = Inr p \<and> raster_width p * raster_height p > 100000000 \<longrightarrow>
        main P a rest = Inl (Exit_failure Too_big))"
proof (intro conjI impI)
  assume "arg_zoom a < 0"
  then show "main P a rest = Inl (Exit_failure Zoom_negative)"
    by (simp add: main_def main_setup_def resolve_def and_then_def)
next
  assume h: "opt_centered a \<and> (arg_width a \<le> 0 \<or> arg_height a \<le> 0)"
  then have "resolve_centered P (normalize_box \<lparr>minlat = arg_minlat a, minlon = arg_minlon a,
        maxlat = arg_maxlat a, maxlon = arg_maxlon a\<rparr>) (arg_width a) (arg_height a) (arg_zoom a)
      = Inl (Exit_failure Width_height)"
    by (intro resolve_centered_bad_size) simp
  then show "main P a rest =
          (if arg_zoom a < 0 then Inl (Exit_failure Zoom_negative)
           else if no_outfile a \<and> stdout_tty a then Inl (Exit_failure No_output)
           else Inl (Exit_failure Width_height))"
    using h by (simp add: main_def main_setup_def resolve_def and_then_def Let_def)
next
  assume "resolve P a = Inr p \<and> raster_width p * raster_height p > 100000000"
  then show "main P a rest = Inl (Exit_failure Too_big)"
    by (simp add: main_def main_setup_def check_dim_def and_then_def Let_def)
qed

theorem configuration_errors_abort_witness:
  "main exact \<lparr>opt_elevation = False, opt_centered = False, opt_tilesize = 256, no_outfile = False,
       stdout_tty = False, arg_minlat = 0, arg_minlon = 0, arg_maxlat = 1, arg_maxlon = 1,
       arg_width = 1, arg_height = 1, arg_zoom = - 1\<rparr> (Inr :: plan \<Rightarrow> error + plan)
     = Inl (Exit_failure Zoom_negative)
   \<and> main exact \<lparr>opt_elevation = False, opt_centered = True, opt_tilesize = 256, no_outfile = False,
       stdout_tty = False, arg_minlat = 0, arg_minlon = 0, arg_maxlat = - 180, arg_maxlon = - 200,
       arg_width = - 180, arg_height = - 200, arg_zoom = 10\<rparr> (Inr :: plan \<Rightarrow> error + plan)
     = Inl (Exit_failure Width_height)
   \<and> (\<exists>p. resolve exact \<lparr>opt_elevation = False, opt_centered = True, opt_tilesize = 256,
       no_outfile = False, stdout_tty = False, arg_minlat = 0, arg_minlon = 0, arg_maxlat = 20000,
       arg_maxlon = 20000, arg_width = 20000, arg_height = 20000, arg_zoom = 10\<rparr> = Inr p
       \<and> raster_width p = 20000 \<and> raster_height p = 20000)
   \<and> main exact \<lparr>opt_elevation = False, opt_centered = True, opt_tilesize = 256, no_outfile = False,
       stdout_tty = False, arg_minlat = 0, arg_minlon = 0, arg_maxlat = 20000, arg_maxlon = 20000,
       arg_width = 20000, arg_height = 20000, arg_zoom = 10\<rparr> (Inr :: plan \<Rightarrow> error + plan)
     = Inl (Exit_failure Too_big)"
proof -
  let ?a1 = "\<lparr>opt_elevation = False, opt_centered = False, opt_tilesize = 256, no_outfile = False,
       stdout_tty = False, arg_minlat = 0, arg_minlon = 0, arg_maxlat = 1, arg_maxlon = 1,
       arg_width = 1, arg_height = 1, arg_zoom = - 1\<rparr>"
  let ?a2 = "\<lparr>opt_elevation = False, opt_centered = True, opt_tilesize = 256, no_outfile = False,
       stdout_tty = False, arg_minlat = 0, arg_minlon = 0, arg_maxlat = - 180, arg_maxlon = - 200,
       arg_width = - 180, arg_height = - 200, arg_zoom = 10\<rparr>"
  let ?a3 = "\<lparr>opt_elevation = False, opt_centered = True, opt_tilesize = 256, no_outfile = False,
       stdout_tty = False, arg_minlat = 0, arg_minlon = 0, arg_maxlat = 20000, arg_maxlon = 20000,
       arg_width = 20000, arg_height = 20000, arg_zoom = 10\<rparr>"
  let ?rest = "Inr :: plan \<Rightarrow> error + plan"
  have l: "latlon2tile exact 0 0 32 = Inr (2147483648, 2147483648)"
    using latlon2tile_exact_equator[of 0] by simp
  obtain p where p: "resolve exact ?a3 = Inr p" "raster_width p = 20000" "raster_height p = 20000"
    by (simp add: resolve_def normalize_box_def resolve_centered_def l shl_int_def tile2latlon_def
        shl_1LL_def tile_range_def tile_indices_def shr_uint_def and_then_def Let_def)
  have 1: "main exact ?a1 ?rest = Inl (Exit_failure Zoom_negative)"
    using configuration_errors_abort[of ?a1 exact ?rest] by simp
  have 2: "main exact ?a2 ?rest = Inl (Exit_failure Width_height)"
    using configuration_errors_abort[of ?a2 exact ?rest] by simp
  have 3: "main exact ?a3 ?rest = Inl (Exit_failure Too_big)"
    using configuration_errors_abort[of ?a3 exact ?rest p] p by simp
  from 1 2 3 p show ?thesis by blast
qed

end
